theory Spec2Isabelle
  imports Main "HOL-Library.Product_Lexorder"
begin

section \<open>Strings of the frontend\<close>

text \<open>
  A JavaScript string is modelled as a list of code units below 256 (the Latin-1 range);
  the frontend's keywords, digits and separators are all ASCII. The three primitives
  below follow ECMAScript on that range: the white space and line terminators that
  \<^verbatim>\<open>trim\<close> and the regular-expression class for white space accept (tab, line feed,
  vertical tab, form feed, carriage return, space, no-break space), the decimal digits,
  and \<^verbatim>\<open>toLowerCase\<close>.
\<close>

definition isWhiteSpace :: "char \<Rightarrow> bool" where
  "isWhiteSpace c =
     (let n = (of_char c :: nat) in (9 \<le> n \<and> n \<le> 13) \<or> n = 32 \<or> n = 160)"

definition isDigit :: "char \<Rightarrow> bool" where
  "isDigit c = (let n = (of_char c :: nat) in 48 \<le> n \<and> n \<le> 57)"

definition toLowerCaseUnit :: "char \<Rightarrow> char" where
  "toLowerCaseUnit c =
     (let n = (of_char c :: nat) in
      if (65 \<le> n \<and> n \<le> 90) \<or> (192 \<le> n \<and> n \<le> 222 \<and> n \<noteq> 215)
      then char_of (n + 32) else c)"

definition toLowerCase :: "string \<Rightarrow> string" where
  "toLowerCase s = map toLowerCaseUnit s"

definition trim :: "string \<Rightarrow> string" where
  "trim s = rev (dropWhile isWhiteSpace (rev (dropWhile isWhiteSpace s)))"

text \<open>\<^verbatim>\<open>parseInt(ds, 10)\<close> on a string of decimal digits.\<close>

definition digitValue :: "char \<Rightarrow> int" where
  "digitValue c = int (of_char c) - 48"

definition parseInt :: "string \<Rightarrow> int" where
  "parseInt ds = foldl (\<lambda>acc c. acc * 10 + digitValue c) 0 ds"

section \<open>The time parser of App.js\<close>

text \<open>
  \<^verbatim>\<open>timeToMinutes\<close> matches the trimmed, lower-cased text against the anchored pattern
  \<^verbatim>\<open>^(\d{1,2})(?::(\d{2}))?(?::(\d{2}))?\s*(am|pm)?$\<close>. The pattern is embedded as a
  backtracking matcher: every piece returns the list of its possible matches, each with
  the rest of the input, in the order the regular-expression engine tries them (greedy
  first); \<open>then_match\<close> continues after each of them in turn, and the first complete
  match gives the capture groups.
\<close>

record time_groups =
  g1 :: string
  g2 :: "string option"
  g3 :: "string option"
  g4 :: "string option"

fun exactly_digits :: "nat \<Rightarrow> string \<Rightarrow> (string \<times> string) list" where
  "exactly_digits 0 s = [([], s)]"
| "exactly_digits (Suc n) [] = []"
| "exactly_digits (Suc n) (c # cs) =
     (if isDigit c then map (\<lambda>(ds, r). (c # ds, r)) (exactly_digits n cs) else [])"

definition one_or_two_digits :: "string \<Rightarrow> (string \<times> string) list" where
  "one_or_two_digits s = exactly_digits 2 s @ exactly_digits 1 s"

definition opt_colon_digits :: "string \<Rightarrow> (string option \<times> string) list" where
  "opt_colon_digits s =
     (case s of
        [] \<Rightarrow> []
      | c # cs \<Rightarrow>
          if c = CHR '':'' then map (\<lambda>(ds, r). (Some ds, r)) (exactly_digits 2 cs) else [])
     @ [(None, s)]"

fun white_space_star :: "string \<Rightarrow> string list" where
  "white_space_star [] = [[]]"
| "white_space_star (c # cs) =
     (if isWhiteSpace c then white_space_star cs else []) @ [c # cs]"

definition literal :: "string \<Rightarrow> string \<Rightarrow> (string option \<times> string) list" where
  "literal w s = (if take (length w) s = w then [(Some w, drop (length w) s)] else [])"

definition opt_am_pm :: "string \<Rightarrow> (string option \<times> string) list" where
  "opt_am_pm s = literal ''am'' s @ literal ''pm'' s @ [(None, s)]"

definition then_match :: "('a \<times> string) list \<Rightarrow> ('a \<Rightarrow> string \<Rightarrow> 'b list) \<Rightarrow> 'b list" where
  "then_match ms k = concat (map (\<lambda>(g, r). k g r) ms)"

definition time_matches :: "string \<Rightarrow> time_groups list" where
  "time_matches s =
     then_match (one_or_two_digits s) (\<lambda>h r1.
     then_match (opt_colon_digits r1) (\<lambda>m r2.
     then_match (opt_colon_digits r2) (\<lambda>sec r3.
     then_match (map (Pair ()) (white_space_star r3)) (\<lambda>_ r4.
     then_match (opt_am_pm r4) (\<lambda>ap r5.
       if r5 = [] then [\<lparr>g1 = h, g2 = m, g3 = sec, g4 = ap\<rparr>] else [])))))"

definition time_regex :: "string \<Rightarrow> time_groups option" where
  "time_regex s = (case time_matches s of [] \<Rightarrow> None | m # _ \<Rightarrow> Some m)"

text \<open>
  The same pattern written as a language: one or two digits, up to two groups of a colon
  and two digits, white space, and an optional \<^verbatim>\<open>am\<close> or \<^verbatim>\<open>pm\<close>.
\<close>

definition colon_pair :: "string \<Rightarrow> bool" where
  "colon_pair m \<longleftrightarrow> m = [] \<or> (\<exists>a b. m = [CHR '':'', a, b] \<and> isDigit a \<and> isDigit b)"

definition time_pattern :: "string \<Rightarrow> bool" where
  "time_pattern s \<longleftrightarrow>
     (\<exists>h m sec w ap.
        s = h @ m @ sec @ w @ ap \<and>
        (length h = 1 \<or> length h = 2) \<and> (\<forall>c\<in>set h. isDigit c) \<and>
        colon_pair m \<and> colon_pair sec \<and>
        (\<forall>c\<in>set w. isWhiteSpace c) \<and>
        (ap = [] \<or> ap = ''am'' \<or> ap = ''pm''))"

text \<open>
  The argument is a string or absent (\<^verbatim>\<open>null\<close>, \<^verbatim>\<open>undefined\<close>); the empty string is
  falsy like an absent value. The result is \<^verbatim>\<open>null\<close> (\<open>None\<close>) or the minutes.
\<close>

definition timeToMinutes :: "string option \<Rightarrow> int option" where
  "timeToMinutes t =
     (case t of
        None \<Rightarrow> None
      | Some raw \<Rightarrow>
          if raw = [] then None
          else
            (case time_regex (toLowerCase (trim raw)) of
               None \<Rightarrow> None
             | Some m \<Rightarrow>
                 let hh = parseInt (g1 m);
                     mm = parseInt (case g2 m of None \<Rightarrow> ''0'' | Some d \<Rightarrow> d);
                     ss = parseInt (case g3 m of None \<Rightarrow> ''0'' | Some d \<Rightarrow> d);
                     ampm = g4 m;
                     hh = (if ampm = Some ''pm'' \<and> hh \<noteq> 12 then hh + 12 else hh);
                     hh = (if ampm = Some ''am'' \<and> hh = 12 then 0 else hh)
                 in Some ((hh * 3600 + mm * 60 + ss) div 60)))"

text \<open>
  An appointment object as the backend sends it: the time fields are strings or missing,
  under either of two names. \<^verbatim>\<open>a.start_time || a.start\<close> takes the second field when
  the first is missing or empty.
\<close>

record appt =
  start_time :: "string option"
  start :: "string option"
  end_time :: "string option"
  end' :: "string option"

definition or_else :: "string option \<Rightarrow> string option \<Rightarrow> string option" where
  "or_else a b = (case a of None \<Rightarrow> b | Some s \<Rightarrow> if s = [] then b else a)"

definition durationFromAppt :: "appt \<Rightarrow> int" where
  "durationFromAppt a =
     (let s = timeToMinutes (or_else (start_time a) (start a));
          e = timeToMinutes (or_else (end_time a) (end' a))
      in case (s, e) of
           (Some sv, Some ev) \<Rightarrow> (let d = ev - sv in if d > 0 then d else 60)
         | _ \<Rightarrow> 60)"

section \<open>Query dispatch in the frontend\<close>

text \<open>
  Every dispatcher posts one request to the backend's \<^verbatim>\<open>/query\<close> route: either the raw
  text, \<^verbatim>\<open>{query: text}\<close>, for the engine to classify, or a structured shortcut
  \<^verbatim>\<open>{action: name}\<close>. A dispatcher that returns before posting sends nothing (\<open>None\<close>).
\<close>

datatype payload = Query string | Action string

text \<open>\<^verbatim>\<open>s.includes(w)\<close>, and the search of a pattern at every position of the text.\<close>

definition starts_with :: "string \<Rightarrow> string \<Rightarrow> bool" where
  "starts_with w s = (take (length w) s = w)"

fun anywhere :: "(string \<Rightarrow> bool) \<Rightarrow> string \<Rightarrow> bool" where
  "anywhere p [] = p []"
| "anywhere p (c # cs) = (p (c # cs) \<or> anywhere p cs)"

definition str_includes :: "string \<Rightarrow> string \<Rightarrow> bool" where
  "str_includes s w = anywhere (starts_with w) s"

text \<open>
  The regular expressions of \<^verbatim>\<open>handleQuery\<close> all carry the flag \<^verbatim>\<open>i\<close>; their letters
  are lower-case ASCII, so a test ignoring case is the test on the lower-cased text.
  \<open>test_any\<close> is an alternation of literal words, \<open>set_space_up\<close> the alternative
  \<^verbatim>\<open>set\s+up\<close>, and \<open>test_word\<close> a phrase between two word boundaries \<^verbatim>\<open>\b\<close>, where a
  boundary separates a word character (letter, digit, underscore) from a character that
  is none, or from the start or the end of the text.
\<close>

definition test_any :: "string list \<Rightarrow> string \<Rightarrow> bool" where
  "test_any ws s = list_ex (str_includes (toLowerCase s)) ws"

definition set_space_up :: "string \<Rightarrow> bool" where
  "set_space_up s =
     (starts_with ''set'' s \<and>
      (let r = drop 3 s; r' = dropWhile isWhiteSpace r
       in r' \<noteq> r \<and> starts_with ''up'' r'))"

definition isWordChar :: "char \<Rightarrow> bool" where
  "isWordChar c =
     (let n = (of_char c :: nat)
      in (48 \<le> n \<and> n \<le> 57) \<or> (65 \<le> n \<and> n \<le> 90) \<or> n = 95 \<or> (97 \<le> n \<and> n \<le> 122))"

definition word_boundary :: "char option \<Rightarrow> char option \<Rightarrow> bool" where
  "word_boundary a b =
     ((case a of None \<Rightarrow> False | Some c \<Rightarrow> isWordChar c) \<noteq>
      (case b of None \<Rightarrow> False | Some c \<Rightarrow> isWordChar c))"

definition first_char :: "string \<Rightarrow> char option" where
  "first_char s = (case s of [] \<Rightarrow> None | c # _ \<Rightarrow> Some c)"

definition word_at :: "string \<Rightarrow> char option \<Rightarrow> string \<Rightarrow> bool" where
  "word_at w prev s =
     (word_boundary prev (first_char s) \<and> starts_with w s \<and>
      word_boundary (first_char (rev w)) (first_char (drop (length w) s)))"

fun anywhere_after :: "(char option \<Rightarrow> string \<Rightarrow> bool) \<Rightarrow> char option \<Rightarrow> string \<Rightarrow> bool" where
  "anywhere_after p prev [] = p prev []"
| "anywhere_after p prev (c # cs) = (p prev (c # cs) \<or> anywhere_after p (Some c) cs)"

definition test_word :: "string \<Rightarrow> string \<Rightarrow> bool" where
  "test_word w s = anywhere_after (word_at w) None (toLowerCase s)"

definition isCreateLike :: "string \<Rightarrow> bool" where
  "isCreateLike lower =
     (test_any [''schedule'', ''create'', ''add'', ''book'', ''hold'', ''block'', ''reserve'',
                ''set up'', ''set-up''] lower \<or>
      anywhere set_space_up (toLowerCase lower))"

definition isModifyLike :: "string \<Rightarrow> bool" where
  "isModifyLike lower =
     test_any [''move'', ''reschedule'', ''change'', ''edit'', ''update'', ''shift'', ''rename'',
               ''retitle''] lower"

definition isCancelLike :: "string \<Rightarrow> bool" where
  "isCancelLike lower = test_any [''cancel'', ''delete'', ''remove'', ''clear''] lower"

definition wantsFree :: "string \<Rightarrow> bool" where
  "wantsFree lower =
     test_any [''free'', ''available'', ''availability'', ''open'', ''slot'', ''free time''] lower"

definition mentionsBetween :: "string \<Rightarrow> bool" where
  "mentionsBetween lower = test_word ''between'' lower"

text \<open>\<^verbatim>\<open>handleQuery\<close> of App.js, on the text of the input box.\<close>

definition handleQuery :: "string \<Rightarrow> payload option" where
  "handleQuery query =
     (let trimmed = trim query in
      if trimmed = [] then None
      else
        let lower = toLowerCase trimmed in
        Some
          (if \<not> isCreateLike lower \<and> \<not> isModifyLike lower \<and> \<not> isCancelLike lower \<and>
              \<not> wantsFree lower \<and> \<not> mentionsBetween lower
           then
             (if test_word ''this week'' lower then Action ''this_week''
              else if test_word ''today'' lower then Action ''today''
              else Query trimmed)
           else Query trimmed))"

text \<open>
  \<^verbatim>\<open>handleVoiceTranscript\<close> of App.js, on the transcript of the microphone button (a
  string or absent), and \<^verbatim>\<open>callBackend\<close> of the voice assistant, on the command heard.
\<close>

definition handleVoiceTranscript :: "string option \<Rightarrow> payload option" where
  "handleVoiceTranscript text =
     (let trimmed = trim (case text of None \<Rightarrow> [] | Some t \<Rightarrow> t) in
      if trimmed = [] then None else Some (Query trimmed))"

definition callBackend :: "string option \<Rightarrow> payload option" where
  "callBackend text =
     (case text of None \<Rightarrow> None | Some t \<Rightarrow> if t = [] then None else Some (Query t))"

text \<open>
  \<^verbatim>\<open>sendQuery\<close> of ChatLayout.jsx, whose shortcuts carry the comment
  ``structured shortcuts same as App.js''.
\<close>

definition sendQuery :: "string \<Rightarrow> payload option" where
  "sendQuery query =
     (let trimmed = trim query in
      if trimmed = [] then None
      else
        let lower = toLowerCase trimmed in
        Some
          (if str_includes lower ''today'' then Action ''today''
           else if str_includes lower ''this week'' then Action ''this_week''
           else Query trimmed))"

section \<open>Reminder polling and snoozing in the frontend\<close>

text \<open>
  Both processes start their reminder poll at launch. The renderer's effect in App.js
  calls \<^verbatim>\<open>poll()\<close> and then \<^verbatim>\<open>setInterval(poll, 60000)\<close>; the Electron main process
  calls \<^verbatim>\<open>setInterval(pollDueReminders, POLL_MS)\<close> and then primes
  \<^verbatim>\<open>pollDueReminders()\<close>. A start-up is the list of these scheduler calls in source
  order. Time is counted in milliseconds since the start-up ran; an interval timer set
  then with a positive period fires at every positive multiple of the period (the
  nominal timer of the platform, without drift), and a direct call runs at time 0.
\<close>

datatype task = Poll | PollDueReminders

datatype scheduler_call = CallNow task | SetInterval task nat

definition POLL_MS :: nat where
  "POLL_MS = 60000"

definition renderer_startup :: "scheduler_call list" where
  "renderer_startup = [CallNow Poll, SetInterval Poll 60000]"

definition main_startup :: "scheduler_call list" where
  "main_startup = [SetInterval PollDueReminders POLL_MS, CallNow PollDueReminders]"

text \<open>Either task posts the action \<^verbatim>\<open>reminders_due\<close>.\<close>

fun posts :: "task \<Rightarrow> payload" where
  "posts Poll = Action ''reminders_due''"
| "posts PollDueReminders = Action ''reminders_due''"

fun runs_at :: "nat \<Rightarrow> scheduler_call \<Rightarrow> task list" where
  "runs_at t (CallNow k) = (if t = 0 then [k] else [])"
| "runs_at t (SetInterval k p) = (if 0 < p \<and> 0 < t \<and> t mod p = 0 then [k] else [])"

definition requests_at :: "scheduler_call list \<Rightarrow> nat \<Rightarrow> payload list" where
  "requests_at calls t = map posts (concat (map (runs_at t) calls))"

fun is_periodic :: "scheduler_call \<Rightarrow> bool" where
  "is_periodic (CallNow k) = False"
| "is_periodic (SetInterval k p) = True"

text \<open>
  A reminder as the backend sends it, and the request of \<^verbatim>\<open>snoozeReminder(r, minutes = 10)\<close>
  of App.js: \<^verbatim>\<open>{action: 'reminder_snooze', id: r.id, minutes}\<close>. The two snooze
  controls of the page, on a toast and in the reminders panel, both call it with 10.
\<close>

record due_reminder =
  r_id :: nat
  r_title :: string

record snooze_request =
  sn_action :: string
  sn_id :: nat
  sn_minutes :: int

definition snoozeReminder :: "due_reminder \<Rightarrow> int option \<Rightarrow> snooze_request" where
  "snoozeReminder r minutes =
     \<lparr>sn_action = ''reminder_snooze'', sn_id = r_id r,
      sn_minutes = (case minutes of None \<Rightarrow> 10 | Some m \<Rightarrow> m)\<rparr>"

datatype snooze_control = ToastSnooze | PanelSnooze

fun on_click :: "snooze_control \<Rightarrow> due_reminder \<Rightarrow> snooze_request" where
  "on_click ToastSnooze r = snoozeReminder r (Some 10)"
| "on_click PanelSnooze r = snoozeReminder r (Some 10)"

section \<open>Native notifications of the Electron main process\<close>

text \<open>
  The state of main.js that reminders touch: the ids whose alarm is ringing (the keys of
  the map \<^verbatim>\<open>ringing\<close>), the set \<^verbatim>\<open>notified\<close>, and the native notifications shown so
  far, each recorded by the reminder it was built from (its title and body are read from
  the reminder and do not matter here).
\<close>

record main_process =
  ringing :: "nat set"
  notified :: "nat set"
  shown :: "due_reminder list"

definition initial_main :: main_process where
  "initial_main = \<lparr>ringing = {}, notified = {}, shown = []\<rparr>"

definition startAlarm :: "nat \<Rightarrow> main_process \<Rightarrow> main_process" where
  "startAlarm i s = (if i \<in> ringing s then s else s\<lparr>ringing := insert i (ringing s)\<rparr>)"

definition stopAlarm :: "nat \<Rightarrow> main_process \<Rightarrow> main_process" where
  "stopAlarm i s = (if i \<in> ringing s then s\<lparr>ringing := ringing s - {i}\<rparr> else s)"

text \<open>The argument of \<^verbatim>\<open>showNativeReminder\<close> is a reminder or \<^verbatim>\<open>null\<close>.\<close>

definition showNativeReminder :: "due_reminder option \<Rightarrow> main_process \<Rightarrow> main_process" where
  "showNativeReminder r s =
     (case r of
        None \<Rightarrow> s
      | Some x \<Rightarrow>
          if r_id x \<in> notified s then s
          else s\<lparr>notified := insert (r_id x) (notified s), shown := shown s @ [x]\<rparr>)"

text \<open>
  What can happen to the main process: the answer of a poll (the array
  \<^verbatim>\<open>due_reminders\<close>, or nothing usable), the renderer's messages
  \<^verbatim>\<open>notify:reminder\<close> and \<^verbatim>\<open>alarm:stop\<close>, the events of a notification (shown, clicked,
  closed), and the last repeat of an alarm's timer.
\<close>

datatype main_event =
    PollAnswer "due_reminder option list option"
  | NotifyReminder "due_reminder option"
  | AlarmStop nat
  | NotificationShow nat
  | NotificationClick nat
  | NotificationClose nat
  | AlarmFinished nat

fun main_step :: "main_process \<Rightarrow> main_event \<Rightarrow> main_process" where
  "main_step s (PollAnswer None) = s"
| "main_step s (PollAnswer (Some rs)) = foldl (\<lambda>st r. showNativeReminder r st) s rs"
| "main_step s (NotifyReminder r) = showNativeReminder r s"
| "main_step s (AlarmStop i) = stopAlarm i s"
| "main_step s (NotificationShow i) = startAlarm i s"
| "main_step s (NotificationClick i) = stopAlarm i s"
| "main_step s (NotificationClose i) = stopAlarm i s"
| "main_step s (AlarmFinished i) = s\<lparr>ringing := ringing s - {i}\<rparr>"

definition main_run :: "main_process \<Rightarrow> main_event list \<Rightarrow> main_process" where
  "main_run s es = foldl main_step s es"

text \<open>
  The invariant of the main process: the notifications shown so far are for distinct
  reminder ids, all of them in \<^verbatim>\<open>notified\<close>.
\<close>

definition shown_once :: "main_process \<Rightarrow> bool" where
  "shown_once s \<longleftrightarrow> distinct (map r_id (shown s)) \<and> r_id ` set (shown s) \<subseteq> notified s"

section \<open>The scheduling engine\<close>

text \<open>
  The engine (the Flask backend with its data layer and recurrence helpers) is not among
  the frontend sources. Its operations are modelled from the specification's words. Dates
  are days counted from a fixed day, times are minutes of the day, and instants are
  minutes counted from a fixed instant.
\<close>

subsection \<open>Intervals and overlap\<close>

text \<open>
  Modelled from the spec: the TimeInterval of section 3, (date, start-minute-of-day,
  end-minute-of-day); the engine's data types are missing from the sources.
\<close>

record TimeInterval =
  ti_date :: int
  ti_start :: nat
  ti_end :: nat

text \<open>
  Modelled from the spec: the cross-midnight segmentation of section 4.1, missing from the
  sources. An interval whose end is not after its start crosses midnight and is split
  into [start, 24:00) on its day and [00:00, end) on the next day.
\<close>

definition segments :: "TimeInterval \<Rightarrow> TimeInterval list" where
  "segments a =
     (if ti_end a \<le> ti_start a
      then [\<lparr>ti_date = ti_date a, ti_start = ti_start a, ti_end = 1440\<rparr>,
            \<lparr>ti_date = ti_date a + 1, ti_start = 0, ti_end = ti_end a\<rparr>]
      else [a])"

text \<open>
  Modelled from the spec: the half-open comparison of two single-day segments of section
  4.4, missing from the sources: the same date, \<open>a.start < b.end\<close> and \<open>b.start < a.end\<close>.
\<close>

definition segment_overlaps :: "TimeInterval \<Rightarrow> TimeInterval \<Rightarrow> bool" where
  "segment_overlaps a b \<longleftrightarrow>
     ti_date a = ti_date b \<and> ti_start a < ti_end b \<and> ti_start b < ti_end a"

text \<open>
  Modelled from the spec: \<^verbatim>\<open>overlaps(a, b)\<close> of section 4.4, missing from the sources. Two
  intervals overlap when a segment of the one overlaps a segment of the other.
\<close>

definition overlaps :: "TimeInterval \<Rightarrow> TimeInterval \<Rightarrow> bool" where
  "overlaps a b = list_ex (\<lambda>x. list_ex (segment_overlaps x) (segments b)) (segments a)"

subsection \<open>Conflicts and bulk insertion\<close>

text \<open>
  Modelled from the spec: the Appointment, the Occurrence and the ConflictPair of section
  3, missing from the sources.
\<close>

record Appointment =
  appt_id :: nat
  appt_date :: int
  appt_start :: nat
  appt_end :: nat
  appt_title :: string

record Occurrence =
  occ_date :: int
  occ_start :: nat
  occ_end :: nat
  occ_title :: string

datatype ConflictPair = ConflictPair Occurrence Appointment

definition appt_interval :: "Appointment \<Rightarrow> TimeInterval" where
  "appt_interval a = \<lparr>ti_date = appt_date a, ti_start = appt_start a, ti_end = appt_end a\<rparr>"

definition occ_interval :: "Occurrence \<Rightarrow> TimeInterval" where
  "occ_interval c = \<lparr>ti_date = occ_date c, ti_start = occ_start c, ti_end = occ_end c\<rparr>"

text \<open>
  Modelled from the spec: \<^verbatim>\<open>findConflicts(candidate, existing)\<close> of section 4.4, missing
  from the sources. It returns every existing appointment whose interval overlaps the
  candidate's, paired with the candidate.
\<close>

definition findConflicts :: "Occurrence \<Rightarrow> Appointment list \<Rightarrow> ConflictPair list" where
  "findConflicts c existing =
     map (ConflictPair c)
       (filter (\<lambda>a. overlaps (occ_interval c) (appt_interval a)) existing)"

text \<open>
  Modelled from the spec: \<^verbatim>\<open>insertAppointment\<close> of section 6 as far as the batch needs
  it, missing from the sources: an accepted occurrence becomes an appointment under an
  identity that no appointment read so far has.
\<close>

definition fresh_id :: "Appointment list \<Rightarrow> nat" where
  "fresh_id as = Suc (foldr max (map appt_id as) 0)"

definition accept :: "Appointment list \<Rightarrow> Occurrence \<Rightarrow> Appointment" where
  "accept as c =
     \<lparr>appt_id = fresh_id as, appt_date = occ_date c, appt_start = occ_start c,
      appt_end = occ_end c, appt_title = occ_title c\<rparr>"

text \<open>
  Modelled from the spec: the loop of \<^verbatim>\<open>bulkInsert\<close> of section 4.4, missing from the
  sources. Each occurrence is checked against the existing store and the occurrences
  accepted before it in the batch; without a conflict it is accepted, with one it is
  recorded as skipped with its conflicts, and the loop goes on with the next occurrence.
\<close>

fun bulk_loop ::
  "Appointment list \<Rightarrow> Appointment list \<Rightarrow> Occurrence list \<Rightarrow>
   Appointment list \<times> (Occurrence \<times> ConflictPair list) list" where
  "bulk_loop existing accepted [] = ([], [])"
| "bulk_loop existing accepted (c # cs) =
     (let conflicts = findConflicts c (existing @ accepted) in
      if conflicts = []
      then
        (let a = accept (existing @ accepted) c;
             (created, skipped) = bulk_loop existing (accepted @ [a]) cs
         in (a # created, skipped))
      else
        (let (created, skipped) = bulk_loop existing accepted cs
         in (created, (c, conflicts) # skipped)))"

text \<open>
  Modelled from the spec: \<^verbatim>\<open>bulkInsert(occurrences)\<close> of section 4.4, missing from the
  sources. Insertion is attempted in ascending chronological order, by date and then by
  start time.
\<close>

definition chronological :: "Occurrence list \<Rightarrow> Occurrence list" where
  "chronological cs = sort_key (\<lambda>c. (occ_date c, occ_start c)) cs"

definition bulkInsert ::
  "Appointment list \<Rightarrow> Occurrence list \<Rightarrow>
   Appointment list \<times> (Occurrence \<times> ConflictPair list) list" where
  "bulkInsert existing occurrences = bulk_loop existing [] (chronological occurrences)"

subsection \<open>Recurrence expansion\<close>

datatype weekday = Monday | Tuesday | Wednesday | Thursday | Friday | Saturday | Sunday

text \<open>
  Modelled from the spec: the weekday of a date, which the engine's calendar arithmetic
  supplies and the sources do not show. Day 0 is taken to be a Monday.
\<close>

definition weekday_of :: "int \<Rightarrow> weekday" where
  "weekday_of d =
     (let r = d mod 7 in
      if r = 0 then Monday else if r = 1 then Tuesday else if r = 2 then Wednesday
      else if r = 3 then Thursday else if r = 4 then Friday else if r = 5 then Saturday
      else Sunday)"

text \<open>
  Modelled from the spec: the RecurrenceSpec of section 3, missing from the sources. The
  three termination modes are three optional fields, of which a valid spec sets exactly
  one.
\<close>

record RecurrenceSpec =
  rs_weekdays :: "weekday list"
  rs_time :: nat
  rs_duration :: int
  rs_every :: int
  rs_count :: "int option"
  rs_until :: "int option"
  rs_range :: "(int \<times> int) option"
  rs_title :: string

datatype engine_error =
    UnresolvedIntent | AmbiguousSelector | InvalidRecurrenceSpec | SchedulingConflict | NotFound

text \<open>
  Modelled from the spec: the validation behind \<^verbatim>\<open>InvalidRecurrenceSpec\<close> of sections 3,
  5 and 7, missing from the sources: exactly one termination mode, a non-empty weekday
  set, a positive duration, an interval multiplier of at least 1, and a count of at least
  1 in count mode.
\<close>

definition modes_set :: "RecurrenceSpec \<Rightarrow> nat" where
  "modes_set sp =
     (if rs_count sp = None then 0 else 1) + (if rs_until sp = None then 0 else 1) +
     (if rs_range sp = None then 0 else 1)"

definition valid_spec :: "RecurrenceSpec \<Rightarrow> bool" where
  "valid_spec sp \<longleftrightarrow>
     modes_set sp = 1 \<and> rs_weekdays sp \<noteq> [] \<and> 0 < rs_duration sp \<and> 1 \<le> rs_every sp \<and>
     (case rs_count sp of None \<Rightarrow> True | Some n \<Rightarrow> 1 \<le> n)"

text \<open>
  Modelled from the spec: one cycle of the expansion of section 4.3, missing from the
  sources: the dates of the seven days from the start of the cycle whose weekday is in the
  weekday set, in order.
\<close>

definition cycle_dates :: "weekday list \<Rightarrow> int \<Rightarrow> int list" where
  "cycle_dates ws c = filter (\<lambda>d. weekday_of d \<in> set ws) (map (\<lambda>i. c + int i) [0..<7])"

text \<open>
  Modelled from the spec: the first date on or after the earliest applicable date whose
  weekday is in the weekday set (section 4.3), missing from the sources.
\<close>

definition first_date :: "weekday list \<Rightarrow> int \<Rightarrow> int" where
  "first_date ws d0 = (case cycle_dates ws d0 of [] \<Rightarrow> d0 | d # _ \<Rightarrow> d)"

text \<open>
  Modelled from the spec: the count mode of section 4.3, missing from the sources. From the
  start of a cycle the matching dates are emitted until \<open>n\<close> are out; the next cycle
  starts 7 times the interval multiplier days later. A cycle that emits nothing ends the
  loop.
\<close>

function count_loop :: "weekday list \<Rightarrow> int \<Rightarrow> int \<Rightarrow> nat \<Rightarrow> int list" where
  "count_loop ws every c n =
     (let ds = take n (cycle_dates ws c) in
      if ds = [] then [] else ds @ count_loop ws every (c + 7 * every) (n - length ds))"
  by pat_completeness auto
termination
  by (relation "measure (\<lambda>(ws, every, c, n). n)") (auto simp: Let_def)

text \<open>
  Modelled from the spec: the end-date and explicit-range modes of section 4.3, missing
  from the sources. Cycles are expanded while they start on or before the last date, and
  only dates up to the last date (inclusive) are emitted.
\<close>

function until_loop :: "weekday list \<Rightarrow> int \<Rightarrow> int \<Rightarrow> int \<Rightarrow> int list" where
  "until_loop ws every c stop =
     (if stop < c \<or> every < 1 then []
      else filter (\<lambda>d. d \<le> stop) (cycle_dates ws c) @ until_loop ws every (c + 7 * every) stop)"
  by pat_completeness auto
termination
  by (relation "measure (\<lambda>(ws, every, c, stop). nat (stop - c + 1))") auto

text \<open>
  Modelled from the spec: an Occurrence of a spec at an anchor date (sections 3 and 4.3),
  missing from the sources. An occurrence that runs past midnight keeps its anchor date
  and ends at a minute of the next day.
\<close>

definition occurrence_at :: "RecurrenceSpec \<Rightarrow> int \<Rightarrow> Occurrence" where
  "occurrence_at sp d =
     \<lparr>occ_date = d, occ_start = rs_time sp,
      occ_end = nat ((int (rs_time sp) + rs_duration sp) mod 1440),
      occ_title = rs_title sp\<rparr>"

text \<open>
  Modelled from the spec: \<^verbatim>\<open>expand(spec, horizon)\<close> of section 4.3, missing from the
  sources. The spec does not say what the horizon holds; it is taken to be the earliest
  applicable date of the count and end-date modes, and an explicit range starts at its own
  first date.
\<close>

definition expand :: "RecurrenceSpec \<Rightarrow> int \<Rightarrow> engine_error + Occurrence list" where
  "expand sp horizon =
     (if \<not> valid_spec sp then Inl InvalidRecurrenceSpec
      else
        Inr (map (occurrence_at sp)
          (case (rs_count sp, rs_until sp, rs_range sp) of
             (Some n, _, _) \<Rightarrow>
               count_loop (rs_weekdays sp) (rs_every sp)
                 (first_date (rs_weekdays sp) horizon) (nat n)
           | (None, Some stop, _) \<Rightarrow>
               until_loop (rs_weekdays sp) (rs_every sp)
                 (first_date (rs_weekdays sp) horizon) stop
           | (None, None, Some (lo, hi)) \<Rightarrow>
               until_loop (rs_weekdays sp) (rs_every sp) (first_date (rs_weekdays sp) lo) hi
           | (None, None, None) \<Rightarrow> [])))"

subsection \<open>Reminders\<close>

text \<open>
  Modelled from the spec: the Reminder of section 3, missing from the sources. The trigger
  basis is absolute (an instant) or relative (lead minutes before the start of the
  associated appointment).
\<close>

datatype trigger_basis = Absolute int | Lead int

record Reminder =
  rem_id :: nat
  rem_appointment :: "nat option"
  rem_basis :: trigger_basis
  rem_active :: bool
  rem_delivered :: bool
  rem_title :: string

text \<open>
  Modelled from the spec: the trigger time of section 4.6, missing from the sources. For a
  lead-based reminder it is the start of the associated appointment minus the lead
  minutes; \<open>starts\<close> gives the start instant of each appointment that exists, and a
  lead-based reminder without its appointment has no trigger time.
\<close>

definition trigger_time :: "(nat \<rightharpoonup> int) \<Rightarrow> Reminder \<Rightarrow> int option" where
  "trigger_time starts r =
     (case rem_basis r of
        Absolute t \<Rightarrow> Some t
      | Lead m \<Rightarrow>
          (case rem_appointment r of
             None \<Rightarrow> None
           | Some a \<Rightarrow> (case starts a of None \<Rightarrow> None | Some s \<Rightarrow> Some (s - m))))"

text \<open>
  Modelled from the spec: \<^verbatim>\<open>dueReminders(now)\<close> of section 4.6, missing from the sources:
  all active, non-delivered reminders whose trigger time is at most \<open>now\<close>.
\<close>

definition dueReminders :: "(nat \<rightharpoonup> int) \<Rightarrow> Reminder list \<Rightarrow> int \<Rightarrow> Reminder list" where
  "dueReminders starts rs now =
     filter (\<lambda>r. rem_active r \<and> \<not> rem_delivered r \<and>
                 (case trigger_time starts r of None \<Rightarrow> False | Some t \<Rightarrow> t \<le> now)) rs"

text \<open>
  Modelled from the spec: snooze of section 4.6, missing from the sources. It takes a
  reminder id and a minute offset, resets the trigger time to \<open>now + offset\<close> and clears
  the delivered flag; an id that no reminder has is \<^verbatim>\<open>NotFound\<close> (section 7).
\<close>

definition snooze ::
  "Reminder list \<Rightarrow> int \<Rightarrow> nat \<Rightarrow> int \<Rightarrow> engine_error + Reminder list" where
  "snooze rs now i offset =
     (if \<not> list_ex (\<lambda>r. rem_id r = i) rs then Inl NotFound
      else
        Inr (map (\<lambda>r. if rem_id r = i
                       then r\<lparr>rem_basis := Absolute (now + offset), rem_delivered := False\<rparr>
                       else r) rs))"

text \<open>
  Modelled from the spec: the dispatch of a structured \<^verbatim>\<open>reminder_snooze\<close> command
  (section 6) to snooze, missing from the sources.
\<close>

definition dispatch_snooze ::
  "Reminder list \<Rightarrow> int \<Rightarrow> snooze_request \<Rightarrow> engine_error + Reminder list" where
  "dispatch_snooze rs now req = snooze rs now (sn_id req) (sn_minutes req)"

text \<open>
  Modelled from the spec: the occurrence that a created Appointment came from (section 3:
  each occurrence becomes an Appointment on commit), missing from the sources.
\<close>

definition occurrence_of :: "Appointment \<Rightarrow> Occurrence" where
  "occurrence_of a =
     \<lparr>occ_date = appt_date a, occ_start = appt_start a, occ_end = appt_end a,
      occ_title = appt_title a\<rparr>"

section \<open>The time pattern and its matcher\<close>

lemma exactly_digits_iff:
  "(ds, r) \<in> set (exactly_digits n s) \<longleftrightarrow>
     s = ds @ r \<and> length ds = n \<and> (\<forall>c\<in>set ds. isDigit c)"
proof (induction n s arbitrary: ds rule: exactly_digits.induct)
  case (1 s)
  then show ?case by auto
next
  case (2 n)
  then show ?case by auto
next
  case (3 n c cs)
  show ?case
  proof (cases "isDigit c")
    case True
    with 3 show ?thesis by (cases ds) auto
  next
    case False
    then show ?thesis by (cases ds) auto
  qed
qed

lemma one_or_two_digits_iff:
  "(ds, r) \<in> set (one_or_two_digits s) \<longleftrightarrow>
     s = ds @ r \<and> (length ds = 1 \<or> length ds = 2) \<and> (\<forall>c\<in>set ds. isDigit c)"
  unfolding one_or_two_digits_def by (auto simp: exactly_digits_iff)

lemma opt_colon_digits_iff:
  "(g, r) \<in> set (opt_colon_digits s) \<longleftrightarrow>
     (g = None \<and> r = s) \<or>
     (\<exists>ds. g = Some ds \<and> s = CHR '':'' # ds @ r \<and> length ds = 2 \<and> (\<forall>c\<in>set ds. isDigit c))"
  unfolding opt_colon_digits_def
  by (cases s) (auto simp: exactly_digits_iff)

lemma white_space_star_iff:
  "r \<in> set (white_space_star s) \<longleftrightarrow> (\<exists>w. s = w @ r \<and> (\<forall>c\<in>set w. isWhiteSpace c))"
proof (induction s)
  case Nil
  then show ?case by auto
next
  case (Cons c cs)
  show ?case
  proof
    assume "r \<in> set (white_space_star (c # cs))"
    then consider "isWhiteSpace c" "r \<in> set (white_space_star cs)" | "r = c # cs"
      by (auto split: if_splits)
    then show "\<exists>w. c # cs = w @ r \<and> (\<forall>c\<in>set w. isWhiteSpace c)"
    proof cases
      case 1
      with Cons obtain w where "cs = w @ r" "\<forall>c\<in>set w. isWhiteSpace c" by auto
      with 1 have "c # cs = (c # w) @ r \<and> (\<forall>x\<in>set (c # w). isWhiteSpace x)" by simp
      then show ?thesis by blast
    next
      case 2
      then have "c # cs = [] @ r \<and> (\<forall>x\<in>set []. isWhiteSpace x)" by simp
      then show ?thesis by blast
    qed
  next
    assume "\<exists>w. c # cs = w @ r \<and> (\<forall>c\<in>set w. isWhiteSpace c)"
    then obtain w where w: "c # cs = w @ r" "\<forall>c\<in>set w. isWhiteSpace c" by blast
    show "r \<in> set (white_space_star (c # cs))"
    proof (cases w)
      case Nil
      with w have "r = c # cs" by simp
      then show ?thesis by simp
    next
      case (Cons x xs)
      with w have "x = c" "cs = xs @ r" "isWhiteSpace c" "\<forall>c\<in>set xs. isWhiteSpace c" by auto
      with Cons.IH show ?thesis by auto
    qed
  qed
qed

lemma literal_iff:
  "(g, r) \<in> set (literal w s) \<longleftrightarrow> g = Some w \<and> s = w @ r"
proof -
  have "take (length w) s = w \<Longrightarrow> s = w @ drop (length w) s"
    by (metis append_take_drop_id)
  then show ?thesis unfolding literal_def by auto
qed

lemma opt_am_pm_iff:
  "(g, r) \<in> set (opt_am_pm s) \<longleftrightarrow>
     (g = None \<and> r = s) \<or> (g = Some ''am'' \<and> s = ''am'' @ r) \<or> (g = Some ''pm'' \<and> s = ''pm'' @ r)"
  unfolding opt_am_pm_def by (auto simp: literal_iff)

lemma colon_pair_iff:
  "colon_pair m \<longleftrightarrow> m = [] \<or> (\<exists>ds. m = CHR '':'' # ds \<and> length ds = 2 \<and> (\<forall>c\<in>set ds. isDigit c))"
proof -
  have "(\<exists>ds. m = CHR '':'' # ds \<and> length ds = 2 \<and> (\<forall>c\<in>set ds. isDigit c)) \<longleftrightarrow>
        (\<exists>a b. m = [CHR '':'', a, b] \<and> isDigit a \<and> isDigit b)"
  proof
    assume "\<exists>ds. m = CHR '':'' # ds \<and> length ds = 2 \<and> (\<forall>c\<in>set ds. isDigit c)"
    then obtain ds where d: "m = CHR '':'' # ds" "length ds = 2" "\<forall>c\<in>set ds. isDigit c" by blast
    from d(2) obtain a b where "ds = [a, b]"
      by (cases ds; cases "tl ds") auto
    with d show "\<exists>a b. m = [CHR '':'', a, b] \<and> isDigit a \<and> isDigit b" by auto
  next
    assume "\<exists>a b. m = [CHR '':'', a, b] \<and> isDigit a \<and> isDigit b"
    then obtain a b where "m = CHR '':'' # [a, b]" "length [a, b] = 2" "\<forall>c\<in>set [a, b]. isDigit c"
      by auto
    then show "\<exists>ds. m = CHR '':'' # ds \<and> length ds = 2 \<and> (\<forall>c\<in>set ds. isDigit c)" by blast
  qed
  then show ?thesis unfolding colon_pair_def by simp
qed

lemma opt_colon_digits_split:
  "(\<exists>g. (g, r) \<in> set (opt_colon_digits s)) \<longleftrightarrow> (\<exists>m. s = m @ r \<and> colon_pair m)"
  unfolding opt_colon_digits_iff colon_pair_iff by auto

lemma opt_am_pm_split:
  "(\<exists>g. (g, r) \<in> set (opt_am_pm s)) \<longleftrightarrow>
     (\<exists>ap. s = ap @ r \<and> (ap = [] \<or> ap = ''am'' \<or> ap = ''pm''))"
  unfolding opt_am_pm_iff by auto

lemma then_match_iff:
  "x \<in> set (then_match ms k) \<longleftrightarrow> (\<exists>g r. (g, r) \<in> set ms \<and> x \<in> set (k g r))"
  unfolding then_match_def by auto

lemma time_matches_mem:
  "x \<in> set (time_matches s) \<longleftrightarrow>
     (\<exists>h r1 m r2 sec r3 r4 ap.
        (h, r1) \<in> set (one_or_two_digits s) \<and> (m, r2) \<in> set (opt_colon_digits r1) \<and>
        (sec, r3) \<in> set (opt_colon_digits r2) \<and> r4 \<in> set (white_space_star r3) \<and>
        (ap, []) \<in> set (opt_am_pm r4) \<and> x = \<lparr>g1 = h, g2 = m, g3 = sec, g4 = ap\<rparr>)"
  unfolding time_matches_def then_match_iff
  by (simp split: if_splits add: image_iff)

lemma time_matches_nonempty:
  "time_matches s \<noteq> [] \<longleftrightarrow>
     (\<exists>h r1 m r2 sec r3 r4 ap.
        (h, r1) \<in> set (one_or_two_digits s) \<and> (m, r2) \<in> set (opt_colon_digits r1) \<and>
        (sec, r3) \<in> set (opt_colon_digits r2) \<and> r4 \<in> set (white_space_star r3) \<and>
        (ap, []) \<in> set (opt_am_pm r4))"
proof -
  have "time_matches s \<noteq> [] \<longleftrightarrow> (\<exists>x. x \<in> set (time_matches s))"
    by (cases "time_matches s") auto
  then show ?thesis unfolding time_matches_mem by blast
qed

lemma time_matches_iff: "time_matches s \<noteq> [] \<longleftrightarrow> time_pattern s"
proof
  assume "time_matches s \<noteq> []"
  then obtain h r1 m r2 sec r3 r4 ap where
    a: "(h, r1) \<in> set (one_or_two_digits s)" "(m, r2) \<in> set (opt_colon_digits r1)"
       "(sec, r3) \<in> set (opt_colon_digits r2)" "r4 \<in> set (white_space_star r3)"
       "(ap, []) \<in> set (opt_am_pm r4)"
    unfolding time_matches_nonempty by blast
  from a(1) have h: "s = h @ r1" "length h = 1 \<or> length h = 2" "\<forall>c\<in>set h. isDigit c"
    by (simp_all add: one_or_two_digits_iff)
  from a(2) obtain m' where m: "r1 = m' @ r2" "colon_pair m'"
    using opt_colon_digits_split by blast
  from a(3) obtain sec' where sec: "r2 = sec' @ r3" "colon_pair sec'"
    using opt_colon_digits_split by blast
  from a(4) obtain w where w: "r3 = w @ r4" "\<forall>c\<in>set w. isWhiteSpace c"
    using white_space_star_iff by blast
  from a(5) obtain ap' where ap: "r4 = ap' @ []" "ap' = [] \<or> ap' = ''am'' \<or> ap' = ''pm''"
    using opt_am_pm_split by blast
  have "s = h @ m' @ sec' @ w @ ap'" using h(1) m(1) sec(1) w(1) ap(1) by simp
  with h(2,3) m(2) sec(2) w(2) ap(2) show "time_pattern s"
    unfolding time_pattern_def by blast
next
  assume "time_pattern s"
  then obtain h m sec w ap where
    p: "s = h @ m @ sec @ w @ ap" "length h = 1 \<or> length h = 2" "\<forall>c\<in>set h. isDigit c"
       "colon_pair m" "colon_pair sec" "\<forall>c\<in>set w. isWhiteSpace c"
       "ap = [] \<or> ap = ''am'' \<or> ap = ''pm''"
    unfolding time_pattern_def by blast
  from p(1,2,3) have 1: "(h, m @ sec @ w @ ap) \<in> set (one_or_two_digits s)"
    by (simp add: one_or_two_digits_iff)
  from p(4) obtain gm where 2: "(gm, sec @ w @ ap) \<in> set (opt_colon_digits (m @ sec @ w @ ap))"
    using opt_colon_digits_split by blast
  from p(5) obtain gs where 3: "(gs, w @ ap) \<in> set (opt_colon_digits (sec @ w @ ap))"
    using opt_colon_digits_split by blast
  from p(6) have 4: "ap \<in> set (white_space_star (w @ ap))"
    using white_space_star_iff by blast
  from p(7) obtain ga where 5: "(ga, []) \<in> set (opt_am_pm ap)"
    using opt_am_pm_split [of "[]" ap] by auto
  from 1 2 3 4 5 show "time_matches s \<noteq> []"
    unfolding time_matches_nonempty by blast
qed

section \<open>Times and durations\<close>

lemma digit_not_space: "isDigit c \<Longrightarrow> \<not> isWhiteSpace c"
  by (simp add: isDigit_def isWhiteSpace_def Let_def)

lemma digit_lower: "isDigit c \<Longrightarrow> toLowerCaseUnit c = c"
  by (simp add: isDigit_def toLowerCaseUnit_def Let_def)

lemma concrete_chars:
  "\<not> isDigit CHR '':''" "\<not> isDigit CHR '' ''" "\<not> isDigit CHR ''a''" "\<not> isDigit CHR ''p''"
  "isWhiteSpace CHR '' ''" "\<not> isWhiteSpace CHR ''m''" "\<not> isWhiteSpace CHR ''a''"
  "\<not> isWhiteSpace CHR ''p''" "\<not> isWhiteSpace CHR '':''"
  "toLowerCaseUnit CHR '':'' = CHR '':''" "toLowerCaseUnit CHR '' '' = CHR '' ''"
  "toLowerCaseUnit CHR ''a'' = CHR ''a''" "toLowerCaseUnit CHR ''p'' = CHR ''p''"
  "toLowerCaseUnit CHR ''m'' = CHR ''m''"
  "isDigit CHR ''1''" "isDigit CHR ''2''"
  by code_simp+

lemma digit_not_colon: "isDigit c \<Longrightarrow> c \<noteq> CHR '':''"
  using concrete_chars(1) by auto

lemmas matcher_defs = time_regex_def time_matches_def then_match_def one_or_two_digits_def
  opt_colon_digits_def opt_am_pm_def literal_def

lemma digitValue_range: "isDigit c \<Longrightarrow> 0 \<le> digitValue c \<and> digitValue c \<le> 9"
  by (auto simp: isDigit_def digitValue_def Let_def)

lemma parseInt_one: "parseInt [a] = digitValue a"
  by (simp add: parseInt_def)

lemma parseInt_two: "parseInt [a, b] = digitValue a * 10 + digitValue b"
  by (simp add: parseInt_def)

lemma parseInt_zero: "parseInt ''0'' = 0"
  by (simp add: parseInt_def digitValue_def)

lemma digitValue_zero: "digitValue CHR ''0'' = 0"
  by (simp add: digitValue_def)

lemma floor_minutes: "((h::int) * 3600 + m * 60 + s) div 60 = h * 60 + m + s div 60"
proof -
  have "h * 3600 + m * 60 + s = s + (h * 60 + m) * 60" by (simp add: algebra_simps)
  then show ?thesis by (simp only: div_mult_self1)
qed

lemma one_or_two_cases:
  assumes "length hs = 1 \<or> length hs = 2" "\<forall>x\<in>set hs. isDigit x"
  obtains a where "hs = [a]" "isDigit a" | a b where "hs = [a, b]" "isDigit a" "isDigit b"
proof (cases hs)
  case Nil
  with assms show ?thesis by simp
next
  case (Cons a t)
  show ?thesis
  proof (cases t)
    case Nil
    with Cons assms that(1) show ?thesis by simp
  next
    case (Cons b u)
    with \<open>hs = a # t\<close> assms have "u = []" by auto
    with Cons \<open>hs = a # t\<close> assms that(2) show ?thesis by simp
  qed
qed

lemmas normal_simps = trim_def toLowerCase_def digit_not_space digit_lower concrete_chars

lemma timeToMinutes_pm:
  assumes "length hs = 1 \<or> length hs = 2" "\<forall>x\<in>set hs. isDigit x" "isDigit c" "isDigit d"
    "parseInt hs \<noteq> 12"
  shows "timeToMinutes (Some (hs @ '':'' @ [c, d] @ '' pm'')) =
         Some ((parseInt hs + 12) * 60 + parseInt [c, d])"
  using assms(1,2)
proof (cases rule: one_or_two_cases)
  case (1 a)
  let ?s = "[a, CHR '':'', c, d, CHR '' '', CHR ''p'', CHR ''m'']"
  have r: "time_regex ?s = Some \<lparr>g1 = [a], g2 = Some [c, d], g3 = None, g4 = Some ''pm''\<rparr>"
    using 1 assms
    by (simp add: matcher_defs concrete_chars digit_not_colon numeral_2_eq_2)
  have n: "toLowerCase (trim ?s) = ?s"
    using 1 assms by (simp add: normal_simps)
  show ?thesis
    using assms(5) 1(1) by (simp add: timeToMinutes_def n r floor_minutes parseInt_one parseInt_two digitValue_zero)
next
  case (2 a b)
  let ?s = "[a, b, CHR '':'', c, d, CHR '' '', CHR ''p'', CHR ''m'']"
  have r: "time_regex ?s = Some \<lparr>g1 = [a, b], g2 = Some [c, d], g3 = None, g4 = Some ''pm''\<rparr>"
    using 2 assms
    by (simp add: matcher_defs concrete_chars digit_not_colon numeral_2_eq_2)
  have n: "toLowerCase (trim ?s) = ?s"
    using 2 assms by (simp add: normal_simps)
  show ?thesis
    using assms(5) 2(1) by (simp add: timeToMinutes_def n r floor_minutes parseInt_one parseInt_two digitValue_zero)
qed

lemma timeToMinutes_12_am:
  assumes "isDigit c" "isDigit d"
  shows "timeToMinutes (Some (''12:'' @ [c, d] @ '' am'')) = Some (parseInt [c, d])"
proof -
  let ?s = "[CHR ''1'', CHR ''2'', CHR '':'', c, d, CHR '' '', CHR ''a'', CHR ''m'']"
  have r: "time_regex ?s = Some \<lparr>g1 = ''12'', g2 = Some [c, d], g3 = None, g4 = Some ''am''\<rparr>"
    using assms
    by (simp add: matcher_defs concrete_chars digit_not_colon numeral_2_eq_2)
  have n: "toLowerCase (trim ?s) = ?s"
    using assms by (simp add: normal_simps)
  have p: "parseInt ''12'' = 12" by (simp add: parseInt_def digitValue_def)
  show ?thesis
    by (simp add: timeToMinutes_def n r p floor_minutes parseInt_zero)
qed

lemma timeToMinutes_seconds:
  assumes "length hs = 1 \<or> length hs = 2" "\<forall>x\<in>set hs. isDigit x" "isDigit c" "isDigit d"
    "isDigit e" "isDigit f"
  shows "timeToMinutes (Some (hs @ '':'' @ [c, d] @ '':'' @ [e, f])) =
         Some (parseInt hs * 60 + parseInt [c, d] + parseInt [e, f] div 60)"
  using assms(1,2)
proof (cases rule: one_or_two_cases)
  case (1 a)
  let ?s = "[a, CHR '':'', c, d, CHR '':'', e, f]"
  have r: "time_regex ?s = Some \<lparr>g1 = [a], g2 = Some [c, d], g3 = Some [e, f], g4 = None\<rparr>"
    using 1 assms
    by (simp add: matcher_defs concrete_chars digit_not_colon numeral_2_eq_2)
  have n: "toLowerCase (trim ?s) = ?s"
    using 1 assms by (simp add: normal_simps)
  show ?thesis
    using 1(1) by (simp add: timeToMinutes_def n r floor_minutes parseInt_zero)
next
  case (2 a b)
  let ?s = "[a, b, CHR '':'', c, d, CHR '':'', e, f]"
  have r: "time_regex ?s = Some \<lparr>g1 = [a, b], g2 = Some [c, d], g3 = Some [e, f], g4 = None\<rparr>"
    using 2 assms
    by (simp add: matcher_defs concrete_chars digit_not_colon numeral_2_eq_2)
  have n: "toLowerCase (trim ?s) = ?s"
    using 2 assms by (simp add: normal_simps)
  show ?thesis
    using 2(1) by (simp add: timeToMinutes_def n r floor_minutes parseInt_zero)
qed

lemma timeToMinutes_no_match:
  assumes "\<not> time_pattern (toLowerCase (trim s))"
  shows "timeToMinutes (Some s) = None"
proof -
  from assms have "time_matches (toLowerCase (trim s)) = []"
    using time_matches_iff by blast
  then show ?thesis by (simp add: timeToMinutes_def time_regex_def)
qed

lemma timeToMinutes_24h:
  assumes "length hs = 1 \<or> length hs = 2" "\<forall>x\<in>set hs. isDigit x" "isDigit c" "isDigit d"
  shows "timeToMinutes (Some (hs @ '':'' @ [c, d])) = Some (parseInt hs * 60 + parseInt [c, d])"
  using assms(1,2)
proof (cases rule: one_or_two_cases)
  case (1 a)
  let ?s = "[a, CHR '':'', c, d]"
  have r: "time_regex ?s = Some \<lparr>g1 = [a], g2 = Some [c, d], g3 = None, g4 = None\<rparr>"
    using 1 assms
    by (simp add: matcher_defs concrete_chars digit_not_colon numeral_2_eq_2)
  have n: "toLowerCase (trim ?s) = ?s"
    using 1 assms by (simp add: normal_simps)
  show ?thesis
    using 1(1) by (simp add: timeToMinutes_def n r floor_minutes parseInt_zero)
next
  case (2 a b)
  let ?s = "[a, b, CHR '':'', c, d]"
  have r: "time_regex ?s = Some \<lparr>g1 = [a, b], g2 = Some [c, d], g3 = None, g4 = None\<rparr>"
    using 2 assms
    by (simp add: matcher_defs concrete_chars digit_not_colon numeral_2_eq_2)
  have n: "toLowerCase (trim ?s) = ?s"
    using 2 assms by (simp add: normal_simps)
  show ?thesis
    using 2(1) by (simp add: timeToMinutes_def n r floor_minutes parseInt_zero)
qed

text \<open>
  C6. \<^verbatim>\<open>timeToMinutes\<close> resolves a single time to minutes since midnight: \<^verbatim>\<open>14:00\<close>
  gives 840, and in general hours and minutes in 24-hour form give \<open>h * 60 + mm\<close>;
  \<^verbatim>\<open>h:mm pm\<close> with \<open>h \<noteq> 12\<close> gives \<open>(h + 12) * 60 + mm\<close>; \<^verbatim>\<open>12:xx am\<close> gives hour 0,
  that is \<open>xx\<close>; a trailing seconds group is accepted and only its whole minutes
  \<open>ss div 60\<close> are kept, so seconds below 60 leave the result of the text without them;
  and every text whose trimmed, lower-cased form is not in the time pattern gives
  \<^verbatim>\<open>null\<close>. The function is total: no input raises.
\<close>

theorem timeToMinutes_resolves:
  "timeToMinutes (Some ''14:00'') = Some 840 \<and>
   (\<forall>hs c d. (length hs = 1 \<or> length hs = 2) \<and> (\<forall>x\<in>set hs. isDigit x) \<and>
        isDigit c \<and> isDigit d \<longrightarrow>
      timeToMinutes (Some (hs @ '':'' @ [c, d])) = Some (parseInt hs * 60 + parseInt [c, d])) \<and>
   (\<forall>hs c d. (length hs = 1 \<or> length hs = 2) \<and> (\<forall>x\<in>set hs. isDigit x) \<and>
        isDigit c \<and> isDigit d \<and> parseInt hs \<noteq> 12 \<longrightarrow>
      timeToMinutes (Some (hs @ '':'' @ [c, d] @ '' pm'')) =
        Some ((parseInt hs + 12) * 60 + parseInt [c, d])) \<and>
   (\<forall>c d. isDigit c \<and> isDigit d \<longrightarrow>
      timeToMinutes (Some (''12:'' @ [c, d] @ '' am'')) = Some (0 * 60 + parseInt [c, d])) \<and>
   (\<forall>hs c d e f. (length hs = 1 \<or> length hs = 2) \<and> (\<forall>x\<in>set hs. isDigit x) \<and>
        isDigit c \<and> isDigit d \<and> isDigit e \<and> isDigit f \<longrightarrow>
      timeToMinutes (Some (hs @ '':'' @ [c, d] @ '':'' @ [e, f])) =
        Some (parseInt hs * 60 + parseInt [c, d] + parseInt [e, f] div 60) \<and>
      (parseInt [e, f] < 60 \<longrightarrow>
         timeToMinutes (Some (hs @ '':'' @ [c, d] @ '':'' @ [e, f])) =
           timeToMinutes (Some (hs @ '':'' @ [c, d])))) \<and>
   (\<forall>s. \<not> time_pattern (toLowerCase (trim s)) \<longrightarrow> timeToMinutes (Some s) = None) \<and>
   timeToMinutes None = None \<and> timeToMinutes (Some []) = None"
proof (intro conjI allI impI)
  show "timeToMinutes (Some ''14:00'') = Some 840" by code_simp
next
  fix hs c d
  assume "(length hs = 1 \<or> length hs = 2) \<and> (\<forall>x\<in>set hs. isDigit x) \<and> isDigit c \<and> isDigit d"
  then show "timeToMinutes (Some (hs @ '':'' @ [c, d])) = Some (parseInt hs * 60 + parseInt [c, d])"
    using timeToMinutes_24h by blast
next
  fix hs c d
  assume "(length hs = 1 \<or> length hs = 2) \<and> (\<forall>x\<in>set hs. isDigit x) \<and>
        isDigit c \<and> isDigit d \<and> parseInt hs \<noteq> 12"
  then show "timeToMinutes (Some (hs @ '':'' @ [c, d] @ '' pm'')) =
        Some ((parseInt hs + 12) * 60 + parseInt [c, d])"
    using timeToMinutes_pm by blast
next
  fix c d
  assume "isDigit c \<and> isDigit d"
  then show "timeToMinutes (Some (''12:'' @ [c, d] @ '' am'')) = Some (0 * 60 + parseInt [c, d])"
    using timeToMinutes_12_am by simp
next
  fix hs c d e f
  assume a: "(length hs = 1 \<or> length hs = 2) \<and> (\<forall>x\<in>set hs. isDigit x) \<and>
        isDigit c \<and> isDigit d \<and> isDigit e \<and> isDigit f"
  then show s: "timeToMinutes (Some (hs @ '':'' @ [c, d] @ '':'' @ [e, f])) =
        Some (parseInt hs * 60 + parseInt [c, d] + parseInt [e, f] div 60)"
    using timeToMinutes_seconds by blast
  assume lt: "parseInt [e, f] < 60"
  from a have "0 \<le> parseInt [e, f]"
    using digitValue_range [of e] digitValue_range [of f] by (simp add: parseInt_two)
  with lt have "parseInt [e, f] div 60 = 0" by simp
  moreover from a have "timeToMinutes (Some (hs @ '':'' @ [c, d])) =
      Some (parseInt hs * 60 + parseInt [c, d])"
    using timeToMinutes_24h by blast
  ultimately show "timeToMinutes (Some (hs @ '':'' @ [c, d] @ '':'' @ [e, f])) =
      timeToMinutes (Some (hs @ '':'' @ [c, d]))"
    using s by simp
next
  fix s
  assume "\<not> time_pattern (toLowerCase (trim s))"
  then show "timeToMinutes (Some s) = None" by (rule timeToMinutes_no_match)
next
  show "timeToMinutes None = None" by (simp add: timeToMinutes_def)
next
  show "timeToMinutes (Some []) = None" by (simp add: timeToMinutes_def)
qed

theorem timeToMinutes_resolves_witness:
  "timeToMinutes (Some ''9:05'') = Some 545 \<and>
   timeToMinutes (Some ''2:30 pm'') = Some 870 \<and>
   timeToMinutes (Some ''12:05 am'') = Some 5 \<and>
   timeToMinutes (Some ''14:00:30'') = Some 840 \<and>
   timeToMinutes (Some ''14:00:30'') = timeToMinutes (Some ''14:00'') \<and>
   timeToMinutes (Some ''noon'') = None"
proof -
  note t = timeToMinutes_resolves
  have d: "isDigit CHR ''0''" "isDigit CHR ''1''" "isDigit CHR ''2''" "isDigit CHR ''3''"
    "isDigit CHR ''4''" "isDigit CHR ''5''" "isDigit CHR ''9''"
    by code_simp+
  have v: "parseInt ''9'' = 9" "parseInt ''2'' = 2" "parseInt ''14'' = 14" "parseInt ''05'' = 5"
    "parseInt ''30'' = 30" "parseInt ''00'' = 0"
    by (simp_all add: parseInt_def digitValue_def)
  have 1: "timeToMinutes (Some (''9'' @ '':'' @ [CHR ''0'', CHR ''5''])) =
      Some (parseInt ''9'' * 60 + parseInt [CHR ''0'', CHR ''5''])"
    using t [THEN conjunct2, THEN conjunct1, rule_format, of "''9''" "CHR ''0''" "CHR ''5''"] d
    by simp
  have 2: "timeToMinutes (Some (''2'' @ '':'' @ [CHR ''3'', CHR ''0''] @ '' pm'')) =
      Some ((parseInt ''2'' + 12) * 60 + parseInt [CHR ''3'', CHR ''0''])"
    using t [THEN conjunct2, THEN conjunct2, THEN conjunct1, rule_format,
        of "''2''" "CHR ''3''" "CHR ''0''"] d v
    by simp
  have 3: "timeToMinutes (Some (''12:'' @ [CHR ''0'', CHR ''5''] @ '' am'')) =
      Some (0 * 60 + parseInt [CHR ''0'', CHR ''5''])"
    using t [THEN conjunct2, THEN conjunct2, THEN conjunct2, THEN conjunct1, rule_format,
        of "CHR ''0''" "CHR ''5''"] d
    by simp
  note t4 = t [THEN conjunct2, THEN conjunct2, THEN conjunct2, THEN conjunct2, THEN conjunct1,
        rule_format, of "''14''" "CHR ''0''" "CHR ''0''" "CHR ''3''" "CHR ''0''"]
  have 4: "timeToMinutes (Some ''14:00:30'') =
        Some (parseInt ''14'' * 60 + parseInt ''00'' + parseInt ''30'' div 60)"
    using t4 [THEN conjunct1] d by simp
  have s4: "timeToMinutes (Some ''14:00:30'') = timeToMinutes (Some ''14:00'')"
    using t4 [THEN conjunct2] d v by simp
  have "time_matches (toLowerCase (trim ''noon'')) = []" by code_simp
  then have "\<not> time_pattern (toLowerCase (trim ''noon''))"
    using time_matches_iff by blast
  then have 5: "timeToMinutes (Some ''noon'') = None"
    using t [THEN conjunct2, THEN conjunct2, THEN conjunct2, THEN conjunct2, THEN conjunct2,
        THEN conjunct1, rule_format, of "''noon''"]
    by simp
  from 1 2 3 4 s4 5 v show ?thesis by simp
qed

text \<open>
  C10. \<^verbatim>\<open>durationFromAppt\<close> returns a strictly positive number of minutes for every
  appointment: the end minus the start when both times parse and the difference is
  positive, and 60 when a time is missing or does not parse or the span is not positive.
  The function is total: no appointment raises.
\<close>

theorem durationFromAppt_positive:
  "0 < durationFromAppt a \<and>
   (\<forall>s e. timeToMinutes (or_else (start_time a) (start a)) = Some s \<and>
          timeToMinutes (or_else (end_time a) (end' a)) = Some e \<and> 0 < e - s \<longrightarrow>
      durationFromAppt a = e - s) \<and>
   (\<forall>s e. timeToMinutes (or_else (start_time a) (start a)) = Some s \<and>
          timeToMinutes (or_else (end_time a) (end' a)) = Some e \<and> e - s \<le> 0 \<longrightarrow>
      durationFromAppt a = 60) \<and>
   (timeToMinutes (or_else (start_time a) (start a)) = None \<longrightarrow> durationFromAppt a = 60) \<and>
   (timeToMinutes (or_else (end_time a) (end' a)) = None \<longrightarrow> durationFromAppt a = 60)"
  by (auto simp: durationFromAppt_def Let_def split: option.splits)

theorem durationFromAppt_positive_witness:
  "durationFromAppt \<lparr>start_time = Some ''09:00'', start = None,
      end_time = Some ''10:30'', end' = None\<rparr> = 90 \<and>
   durationFromAppt \<lparr>start_time = None, start = Some ''2:00 pm'',
      end_time = Some [], end' = Some ''1:00 pm''\<rparr> = 60 \<and>
   durationFromAppt \<lparr>start_time = Some ''soon'', start = None,
      end_time = Some ''10:30'', end' = None\<rparr> = 60 \<and>
   durationFromAppt \<lparr>start_time = Some ''09:00'', start = None,
      end_time = None, end' = None\<rparr> = 60"
proof -
  let ?a = "\<lparr>start_time = Some ''09:00'', start = None, end_time = Some ''10:30'', end' = None\<rparr>"
  let ?b = "\<lparr>start_time = None, start = Some ''2:00 pm'', end_time = Some [], end' = Some ''1:00 pm''\<rparr>"
  let ?c = "\<lparr>start_time = Some ''soon'', start = None, end_time = Some ''10:30'', end' = None\<rparr>"
  let ?d = "\<lparr>start_time = Some ''09:00'', start = None, end_time = None, end' = None\<rparr>"
  have a: "timeToMinutes (or_else (start_time ?a) (start ?a)) = Some 540"
    "timeToMinutes (or_else (end_time ?a) (end' ?a)) = Some 630"
    by code_simp+
  have b: "timeToMinutes (or_else (start_time ?b) (start ?b)) = Some 840"
    "timeToMinutes (or_else (end_time ?b) (end' ?b)) = Some 780"
    by code_simp+
  have c: "timeToMinutes (or_else (start_time ?c) (start ?c)) = None"
    by code_simp
  have d: "timeToMinutes (or_else (end_time ?d) (end' ?d)) = None"
    by code_simp
  have "durationFromAppt ?a = 630 - 540"
    using durationFromAppt_positive [of ?a, THEN conjunct2, THEN conjunct1, rule_format, of 540 630] a
    by simp
  moreover have "durationFromAppt ?b = 60"
    using durationFromAppt_positive [of ?b, THEN conjunct2, THEN conjunct2, THEN conjunct1,
        rule_format, of 840 780] b
    by simp
  moreover have "durationFromAppt ?c = 60"
    using durationFromAppt_positive [of ?c, THEN conjunct2, THEN conjunct2, THEN conjunct2,
        THEN conjunct1] c
    by simp
  moreover have "durationFromAppt ?d = 60"
    using durationFromAppt_positive [of ?d, THEN conjunct2, THEN conjunct2, THEN conjunct2,
        THEN conjunct2] d
    by simp
  ultimately show ?thesis by simp
qed

section \<open>Dispatchers\<close>

lemma handleQuery_cancel_raw:
  assumes "isCancelLike (toLowerCase (trim q))" "trim q \<noteq> []"
  shows "handleQuery q = Some (Query (trim q))"
  using assms by (simp add: handleQuery_def Let_def)

lemma handleQuery_this_week_first:
  assumes "handleQuery q = Some (Action ''today'')"
  shows "\<not> test_word ''this week'' (toLowerCase (trim q))"
  using assms by (auto simp: handleQuery_def Let_def split: if_splits)

lemma voice_never_shortcuts:
  "handleVoiceTranscript t \<noteq> Some (Action a)" "callBackend t \<noteq> Some (Action a)"
  by (auto simp: handleVoiceTranscript_def callBackend_def Let_def split: option.splits)

text \<open>
  \<^verbatim>\<open>handleQuery\<close> reads ``this week'' and ``today'' between word boundaries: ``this
  weekend'' is not ``this week''.
\<close>

lemma handleQuery_word_boundaries:
  "handleQuery ''this weekend today'' = Some (Action ''today'')"
  by code_simp

text \<open>
  C4. A text with a cancel keyword must reach the engine as a raw query. \<^verbatim>\<open>handleQuery\<close>
  does so, but \<^verbatim>\<open>sendQuery\<close> rewrites ``cancel my meeting today'' into the shortcut
  \<^verbatim>\<open>today\<close>.
\<close>

theorem sendQuery_rewrites_cancel:
  "sendQuery ''cancel my meeting today'' = Some (Action ''today'') \<and>
   handleQuery ''cancel my meeting today'' = Some (Query ''cancel my meeting today'')"
  by code_simp

text \<open>
  C5. A text with both ``this week'' and ``today'' that is eligible for a shortcut gets
  \<^verbatim>\<open>this_week\<close> from \<^verbatim>\<open>handleQuery\<close>, but \<^verbatim>\<open>today\<close> from \<^verbatim>\<open>sendQuery\<close>, which tests
  ``today'' first.
\<close>

theorem sendQuery_prefers_today:
  "sendQuery ''What is on today and this week'' = Some (Action ''today'') \<and>
   handleQuery ''What is on today and this week'' = Some (Action ''this_week'')"
  by code_simp

section \<open>The poll timers\<close>

text \<open>
  C7. Each process has one periodic task, and its start-up posts \<^verbatim>\<open>reminders_due\<close> once
  at launch and then once at every multiple of 60000 ms, and nothing at any other time.
\<close>

theorem poll_every_minute:
  "requests_at renderer_startup t = (if t mod 60000 = 0 then [Action ''reminders_due''] else []) \<and>
   requests_at main_startup t = (if t mod 60000 = 0 then [Action ''reminders_due''] else []) \<and>
   length (filter is_periodic renderer_startup) = 1 \<and>
   length (filter is_periodic main_startup) = 1"
  by (auto simp: requests_at_def renderer_startup_def main_startup_def POLL_MS_def)

theorem poll_every_minute_witness:
  "requests_at renderer_startup 0 = [Action ''reminders_due''] \<and>
   requests_at main_startup 120000 = [Action ''reminders_due''] \<and>
   requests_at main_startup 90000 = []"
  using poll_every_minute [of 0] poll_every_minute [of 120000] poll_every_minute [of 90000]
  by simp

section \<open>Notified reminders\<close>

lemma showNativeReminder_noop:
  "r_id r \<in> notified s \<Longrightarrow> showNativeReminder (Some r) s = s"
  by (simp add: showNativeReminder_def)

lemma showNativeReminder_grows: "notified s \<subseteq> notified (showNativeReminder r s)"
  by (auto simp: showNativeReminder_def split: option.splits)

lemma showNativeReminder_once: "shown_once s \<Longrightarrow> shown_once (showNativeReminder r s)"
  by (auto simp: showNativeReminder_def shown_once_def split: option.splits)

lemma poll_answer_grows:
  "notified s \<subseteq> notified (foldl (\<lambda>st r. showNativeReminder r st) s rs)"
proof (induction rs arbitrary: s)
  case Nil
  then show ?case by simp
next
  case (Cons r rs)
  have "notified s \<subseteq> notified (showNativeReminder r s)" by (rule showNativeReminder_grows)
  also have "\<dots> \<subseteq> notified (foldl (\<lambda>st r. showNativeReminder r st) (showNativeReminder r s) rs)"
    by (rule Cons.IH)
  finally show ?case by simp
qed

lemma poll_answer_once:
  "shown_once s \<Longrightarrow> shown_once (foldl (\<lambda>st r. showNativeReminder r st) s rs)"
  by (induction rs arbitrary: s) (simp_all add: showNativeReminder_once)

lemma main_step_grows: "notified s \<subseteq> notified (main_step s e)"
proof (cases e)
  case (PollAnswer a)
  then show ?thesis by (cases a) (simp_all add: poll_answer_grows)
qed (simp_all add: showNativeReminder_grows startAlarm_def stopAlarm_def)

lemma main_step_once: "shown_once s \<Longrightarrow> shown_once (main_step s e)"
proof (cases e)
  case (PollAnswer a)
  assume "shown_once s"
  with PollAnswer show ?thesis by (cases a) (simp_all add: poll_answer_once)
next
  case (NotifyReminder r)
  assume "shown_once s"
  with NotifyReminder show ?thesis by (simp add: showNativeReminder_once)
qed (simp_all add: startAlarm_def stopAlarm_def shown_once_def)

lemma main_run_grows: "notified s \<subseteq> notified (main_run s es)"
  unfolding main_run_def
proof (induction es arbitrary: s)
  case Nil
  then show ?case by simp
next
  case (Cons e es)
  have "notified s \<subseteq> notified (main_step s e)" by (rule main_step_grows)
  also have "\<dots> \<subseteq> notified (foldl main_step (main_step s e) es)" by (rule Cons.IH)
  finally show ?case by simp
qed

lemma main_run_once: "shown_once s \<Longrightarrow> shown_once (main_run s es)"
  unfolding main_run_def
  by (induction es arbitrary: s) (simp_all add: main_step_once)

lemma distinct_count_le_one:
  "distinct (map f xs) \<Longrightarrow> length (filter (\<lambda>x. f x = i) xs) \<le> 1"
proof (induction xs)
  case Nil
  then show ?case by simp
next
  case (Cons x xs)
  show ?case
  proof (cases "f x = i")
    case True
    with Cons.prems have "\<forall>y\<in>set xs. f y \<noteq> i" by (auto simp: image_iff)
    then have "filter (\<lambda>x. f x = i) xs = []" by (simp add: filter_empty_conv)
    with True show ?thesis by simp
  next
    case False
    with Cons show ?thesis by simp
  qed
qed

text \<open>
  C9. \<^verbatim>\<open>showNativeReminder\<close> does nothing for an id that is already in \<^verbatim>\<open>notified\<close>; no
  event of the main process removes an id from \<^verbatim>\<open>notified\<close>; and along every sequence of
  events from the start of the process at most one native notification is shown for each
  reminder id.
\<close>

theorem notified_at_most_once:
  "(r_id r \<in> notified s \<longrightarrow> showNativeReminder (Some r) s = s) \<and>
   notified s \<subseteq> notified (main_step s e) \<and>
   notified s \<subseteq> notified (main_run s es) \<and>
   length (filter (\<lambda>x. r_id x = i) (shown (main_run initial_main es))) \<le> 1"
proof (intro conjI impI)
  assume "r_id r \<in> notified s"
  then show "showNativeReminder (Some r) s = s" by (rule showNativeReminder_noop)
next
  show "notified s \<subseteq> notified (main_step s e)" by (rule main_step_grows)
next
  show "notified s \<subseteq> notified (main_run s es)" by (rule main_run_grows)
next
  have "shown_once initial_main" by (simp add: shown_once_def initial_main_def)
  then have "shown_once (main_run initial_main es)" by (rule main_run_once)
  then have "distinct (map r_id (shown (main_run initial_main es)))"
    by (simp add: shown_once_def)
  then show "length (filter (\<lambda>x. r_id x = i) (shown (main_run initial_main es))) \<le> 1"
    by (rule distinct_count_le_one)
qed

theorem notified_at_most_once_witness:
  "showNativeReminder (Some \<lparr>r_id = 7, r_title = ''Call Alex''\<rparr>)
      (main_run initial_main [PollAnswer (Some [Some \<lparr>r_id = 7, r_title = ''Call Alex''\<rparr>])]) =
    main_run initial_main [PollAnswer (Some [Some \<lparr>r_id = 7, r_title = ''Call Alex''\<rparr>])] \<and>
   length (filter (\<lambda>x. r_id x = 7)
      (shown (main_run initial_main
         [PollAnswer (Some [Some \<lparr>r_id = 7, r_title = ''Call Alex''\<rparr>]),
          NotifyReminder (Some \<lparr>r_id = 7, r_title = ''Call Alex''\<rparr>),
          PollAnswer (Some [None, Some \<lparr>r_id = 7, r_title = ''Call Alex''\<rparr>])]))) \<le> 1"
proof -
  let ?r = "\<lparr>r_id = 7, r_title = ''Call Alex''\<rparr>"
  let ?s = "main_run initial_main [PollAnswer (Some [Some ?r])]"
  let ?es = "[PollAnswer (Some [Some ?r]), NotifyReminder (Some ?r), PollAnswer (Some [None, Some ?r])]"
  have "r_id ?r \<in> notified ?s"
    by (simp add: main_run_def initial_main_def showNativeReminder_def)
  with notified_at_most_once [of ?r ?s "NotifyReminder None" ?es 7] show ?thesis
    by blast
qed

section \<open>Overlap is symmetric\<close>

lemma segment_overlaps_sym: "segment_overlaps a b = segment_overlaps b a"
  by (auto simp: segment_overlaps_def)

text \<open>
  C1. Overlap is symmetric: \<open>overlaps a b\<close> equals \<open>overlaps b a\<close> for every pair of
  intervals, where overlap is the half-open comparison of their single-day segments.
\<close>

theorem overlaps_symmetric: "overlaps a b = overlaps b a"
proof -
  have "overlaps a b \<longleftrightarrow>
      (\<exists>x\<in>set (segments a). \<exists>y\<in>set (segments b). segment_overlaps x y)"
    by (simp add: overlaps_def list_ex_iff)
  also have "\<dots> \<longleftrightarrow> (\<exists>y\<in>set (segments b). \<exists>x\<in>set (segments a). segment_overlaps y x)"
    using segment_overlaps_sym by blast
  also have "\<dots> \<longleftrightarrow> overlaps b a"
    by (simp add: overlaps_def list_ex_iff)
  finally show ?thesis .
qed

theorem overlaps_symmetric_witness:
  "overlaps \<lparr>ti_date = 10, ti_start = 1320, ti_end = 60\<rparr>
      \<lparr>ti_date = 11, ti_start = 30, ti_end = 60\<rparr> \<and>
   overlaps \<lparr>ti_date = 11, ti_start = 30, ti_end = 60\<rparr>
      \<lparr>ti_date = 10, ti_start = 1320, ti_end = 60\<rparr> \<and>
   \<not> overlaps \<lparr>ti_date = 11, ti_start = 120, ti_end = 180\<rparr>
      \<lparr>ti_date = 10, ti_start = 1320, ti_end = 60\<rparr>"
proof -
  let ?a = "\<lparr>ti_date = 10, ti_start = 1320, ti_end = 60\<rparr>"
  let ?b = "\<lparr>ti_date = 11, ti_start = 30, ti_end = 60\<rparr>"
  let ?c = "\<lparr>ti_date = 11, ti_start = 120, ti_end = 180\<rparr>"
  have 1: "overlaps ?a ?b" by (simp add: overlaps_def segments_def segment_overlaps_def)
  have 2: "\<not> overlaps ?a ?c" by (simp add: overlaps_def segments_def segment_overlaps_def)
  from 1 2 overlaps_symmetric [of ?a ?b] overlaps_symmetric [of ?a ?c] show ?thesis by simp
qed

section \<open>Bulk insertion accounts for every occurrence\<close>

lemma bulk_loop_step:
  "bulk_loop existing accepted (c # cs) =
     (if findConflicts c (existing @ accepted) = []
      then (accept (existing @ accepted) c #
              fst (bulk_loop existing (accepted @ [accept (existing @ accepted) c]) cs),
            snd (bulk_loop existing (accepted @ [accept (existing @ accepted) c]) cs))
      else (fst (bulk_loop existing accepted cs),
            (c, findConflicts c (existing @ accepted)) # snd (bulk_loop existing accepted cs)))"
  by (simp add: Let_def split: prod.splits)

lemma bulk_loop_lengths:
  "length (fst (bulk_loop existing accepted cs)) + length (snd (bulk_loop existing accepted cs)) =
   length cs"
proof (induction cs arbitrary: accepted)
  case Nil
  then show ?case by simp
next
  case (Cons c cs)
  then show ?case by (simp add: bulk_loop_step del: bulk_loop.simps)
qed

lemma bulk_loop_conflicts:
  "x \<in> set (snd (bulk_loop existing accepted cs)) \<Longrightarrow> snd x \<noteq> []"
proof (induction cs arbitrary: accepted)
  case Nil
  then show ?case by simp
next
  case (Cons c cs)
  then show ?case
    by (auto simp: bulk_loop_step simp del: bulk_loop.simps split: if_splits)
qed

lemma occurrence_of_accept: "occurrence_of (accept as c) = c"
  by (simp add: occurrence_of_def accept_def)

lemma bulk_loop_all:
  "c \<in> set cs \<Longrightarrow>
   c \<in> occurrence_of ` set (fst (bulk_loop existing accepted cs)) \<or>
   c \<in> fst ` set (snd (bulk_loop existing accepted cs))"
proof (induction cs arbitrary: accepted)
  case Nil
  then show ?case by simp
next
  case (Cons x cs)
  show ?case
  proof (cases "c = x")
    case True
    then show ?thesis
      by (simp add: bulk_loop_step occurrence_of_accept del: bulk_loop.simps)
  next
    case False
    with Cons.prems have "c \<in> set cs" by simp
    from Cons.IH [OF this] show ?thesis
      by (auto simp: bulk_loop_step simp del: bulk_loop.simps)
  qed
qed

lemma bulk_loop_append:
  "bulk_loop existing accepted (pre @ post) =
     (fst (bulk_loop existing accepted pre) @
        fst (bulk_loop existing (accepted @ fst (bulk_loop existing accepted pre)) post),
      snd (bulk_loop existing accepted pre) @
        snd (bulk_loop existing (accepted @ fst (bulk_loop existing accepted pre)) post))"
proof (induction pre arbitrary: accepted)
  case Nil
  then show ?case by simp
next
  case (Cons c pre)
  show ?case
  proof (cases "findConflicts c (existing @ accepted) = []")
    case True
    then show ?thesis
      using Cons [of "accepted @ [accept (existing @ accepted) c]"]
      by (simp add: bulk_loop_step del: bulk_loop.simps)
  next
    case False
    then show ?thesis
      using Cons [of accepted]
      by (simp add: bulk_loop_step del: bulk_loop.simps)
  qed
qed

lemma findConflicts_Nil_iff:
  "findConflicts c as = [] \<longleftrightarrow> (\<forall>a\<in>set as. \<not> overlaps (occ_interval c) (appt_interval a))"
  by (simp add: findConflicts_def filter_empty_conv)

lemma bulk_loop_conflicting:
  "c \<in> set cs \<Longrightarrow> findConflicts c (existing @ accepted) \<noteq> [] \<Longrightarrow>
   c \<in> fst ` set (snd (bulk_loop existing accepted cs))"
proof (induction cs arbitrary: accepted)
  case Nil
  then show ?case by simp
next
  case (Cons x cs)
  show ?case
  proof (cases "c = x")
    case True
    with Cons.prems(2) show ?thesis
      by (simp add: bulk_loop_step del: bulk_loop.simps)
  next
    case False
    with Cons.prems(1) have c: "c \<in> set cs" by simp
    show ?thesis
    proof (cases "findConflicts x (existing @ accepted) = []")
      case True
      from Cons.prems(2)
      have "findConflicts c (existing @ accepted @ [accept (existing @ accepted) x]) \<noteq> []"
        unfolding findConflicts_Nil_iff by auto
      from Cons.IH [OF c, of "accepted @ [accept (existing @ accepted) x]"] this True
      show ?thesis by (simp add: bulk_loop_step del: bulk_loop.simps)
    next
      case False
      from Cons.IH [OF c Cons.prems(2)] False
      show ?thesis by (simp add: bulk_loop_step del: bulk_loop.simps)
    qed
  qed
qed

lemma chronological_prefix:
  assumes "chronological occurrences = pre @ post"
  shows "chronological pre = pre"
proof -
  have "sorted (map (\<lambda>c. (occ_date c, occ_start c)) (chronological occurrences))"
    unfolding chronological_def by (rule sorted_sort_key)
  with assms have "sorted (map (\<lambda>c. (occ_date c, occ_start c)) pre)"
    by (simp add: sorted_append)
  then show ?thesis unfolding chronological_def by (rule sort_key_id_if_sorted)
qed

lemma bulkInsert_split:
  assumes "chronological occurrences = pre @ c # post"
  shows "bulkInsert existing occurrences =
     (fst (bulkInsert existing pre) @
        fst (bulk_loop existing (fst (bulkInsert existing pre)) (c # post)),
      snd (bulkInsert existing pre) @
        snd (bulk_loop existing (fst (bulkInsert existing pre)) (c # post)))"
proof -
  have "bulkInsert existing pre = bulk_loop existing [] pre"
    using chronological_prefix [OF assms] by (simp add: bulkInsert_def)
  then show ?thesis
    using bulk_loop_append [of existing "[]" pre "c # post"] assms
    by (simp add: bulkInsert_def)
qed

text \<open>
  C2. \<^verbatim>\<open>bulkInsert\<close> returns (created, skipped) with
  \<open>length created + length skipped = length occurrences\<close>; every skipped entry carries
  at least one conflict; every occurrence of the batch ends up created or skipped; and an
  occurrence that conflicts with the store is recorded as skipped. Processing continues
  after a conflict: for every occurrence \<open>c\<close> of the batch in chronological order, with
  \<open>pre\<close> the occurrences before it, the appointments created from \<open>pre\<close> alone open the
  created list, and \<open>c\<close> is decided by its conflicts with the store and those
  appointments, whatever happened before. With a conflict it is recorded as skipped with
  exactly these conflict pairs; without one it is created, as the next appointment after
  those of \<open>pre\<close>.
\<close>

theorem bulkInsert_accounts_for_all:
  "length (fst (bulkInsert existing occurrences)) + length (snd (bulkInsert existing occurrences)) =
     length occurrences \<and>
   (\<forall>x\<in>set (snd (bulkInsert existing occurrences)). snd x \<noteq> []) \<and>
   (\<forall>c\<in>set occurrences.
      c \<in> occurrence_of ` set (fst (bulkInsert existing occurrences)) \<or>
      c \<in> fst ` set (snd (bulkInsert existing occurrences))) \<and>
   (\<forall>c\<in>set occurrences.
      findConflicts c existing \<noteq> [] \<longrightarrow> c \<in> fst ` set (snd (bulkInsert existing occurrences))) \<and>
   (\<forall>pre c post.
      chronological occurrences = pre @ c # post \<longrightarrow>
        take (length (fst (bulkInsert existing pre))) (fst (bulkInsert existing occurrences)) =
          fst (bulkInsert existing pre) \<and>
        (findConflicts c (existing @ fst (bulkInsert existing pre)) \<noteq> [] \<longrightarrow>
           (c, findConflicts c (existing @ fst (bulkInsert existing pre)))
             \<in> set (snd (bulkInsert existing occurrences))) \<and>
        (findConflicts c (existing @ fst (bulkInsert existing pre)) = [] \<longrightarrow>
           length (fst (bulkInsert existing pre)) < length (fst (bulkInsert existing occurrences)) \<and>
           occurrence_of
             (fst (bulkInsert existing occurrences) ! length (fst (bulkInsert existing pre))) = c))"
proof (intro conjI ballI allI impI)
  show "length (fst (bulkInsert existing occurrences)) +
      length (snd (bulkInsert existing occurrences)) = length occurrences"
    by (simp add: bulkInsert_def chronological_def bulk_loop_lengths)
next
  fix x
  assume "x \<in> set (snd (bulkInsert existing occurrences))"
  then show "snd x \<noteq> []" unfolding bulkInsert_def by (rule bulk_loop_conflicts)
next
  fix c
  assume "c \<in> set occurrences"
  then have "c \<in> set (chronological occurrences)" by (simp add: chronological_def)
  then show "c \<in> occurrence_of ` set (fst (bulkInsert existing occurrences)) \<or>
      c \<in> fst ` set (snd (bulkInsert existing occurrences))"
    unfolding bulkInsert_def by (rule bulk_loop_all)
next
  fix c
  assume "c \<in> set occurrences" and f: "findConflicts c existing \<noteq> []"
  then have "c \<in> set (chronological occurrences)" by (simp add: chronological_def)
  moreover from f have "findConflicts c (existing @ []) \<noteq> []" by simp
  ultimately show "c \<in> fst ` set (snd (bulkInsert existing occurrences))"
    unfolding bulkInsert_def by (rule bulk_loop_conflicting)
next
  fix pre c post
  assume s: "chronological occurrences = pre @ c # post"
  note r = bulkInsert_split [OF s, of existing]
  show "take (length (fst (bulkInsert existing pre))) (fst (bulkInsert existing occurrences)) =
      fst (bulkInsert existing pre)"
    by (simp add: r)
  {
    assume "findConflicts c (existing @ fst (bulkInsert existing pre)) \<noteq> []"
    then show "(c, findConflicts c (existing @ fst (bulkInsert existing pre)))
        \<in> set (snd (bulkInsert existing occurrences))"
      by (simp add: r bulk_loop_step del: bulk_loop.simps)
  }
  {
    assume n: "findConflicts c (existing @ fst (bulkInsert existing pre)) = []"
    then show "length (fst (bulkInsert existing pre)) < length (fst (bulkInsert existing occurrences))"
      by (simp add: r bulk_loop_step del: bulk_loop.simps)
    from n show "occurrence_of
        (fst (bulkInsert existing occurrences) ! length (fst (bulkInsert existing pre))) = c"
      by (simp add: r bulk_loop_step occurrence_of_accept nth_append del: bulk_loop.simps)
  }
qed

theorem bulkInsert_accounts_for_all_witness:
  "length (fst (bulkInsert
       [\<lparr>appt_id = 1, appt_date = 3, appt_start = 600, appt_end = 660, appt_title = ''Review''\<rparr>]
       [\<lparr>occ_date = 4, occ_start = 600, occ_end = 660, occ_title = ''r''\<rparr>,
        \<lparr>occ_date = 3, occ_start = 630, occ_end = 690, occ_title = ''q''\<rparr>,
        \<lparr>occ_date = 2, occ_start = 600, occ_end = 640, occ_title = ''p''\<rparr>])) = 2 \<and>
   length (snd (bulkInsert
       [\<lparr>appt_id = 1, appt_date = 3, appt_start = 600, appt_end = 660, appt_title = ''Review''\<rparr>]
       [\<lparr>occ_date = 4, occ_start = 600, occ_end = 660, occ_title = ''r''\<rparr>,
        \<lparr>occ_date = 3, occ_start = 630, occ_end = 690, occ_title = ''q''\<rparr>,
        \<lparr>occ_date = 2, occ_start = 600, occ_end = 640, occ_title = ''p''\<rparr>])) = 1 \<and>
   (\<lparr>occ_date = 3, occ_start = 630, occ_end = 690, occ_title = ''q''\<rparr>,
    [ConflictPair \<lparr>occ_date = 3, occ_start = 630, occ_end = 690, occ_title = ''q''\<rparr>
       \<lparr>appt_id = 1, appt_date = 3, appt_start = 600, appt_end = 660, appt_title = ''Review''\<rparr>])
     \<in> set (snd (bulkInsert
       [\<lparr>appt_id = 1, appt_date = 3, appt_start = 600, appt_end = 660, appt_title = ''Review''\<rparr>]
       [\<lparr>occ_date = 4, occ_start = 600, occ_end = 660, occ_title = ''r''\<rparr>,
        \<lparr>occ_date = 3, occ_start = 630, occ_end = 690, occ_title = ''q''\<rparr>,
        \<lparr>occ_date = 2, occ_start = 600, occ_end = 640, occ_title = ''p''\<rparr>])) \<and>
   occurrence_of (fst (bulkInsert
       [\<lparr>appt_id = 1, appt_date = 3, appt_start = 600, appt_end = 660, appt_title = ''Review''\<rparr>]
       [\<lparr>occ_date = 4, occ_start = 600, occ_end = 660, occ_title = ''r''\<rparr>,
        \<lparr>occ_date = 3, occ_start = 630, occ_end = 690, occ_title = ''q''\<rparr>,
        \<lparr>occ_date = 2, occ_start = 600, occ_end = 640, occ_title = ''p''\<rparr>]) ! 1) =
     \<lparr>occ_date = 4, occ_start = 600, occ_end = 660, occ_title = ''r''\<rparr> \<and>
   snd (hd (snd (bulkInsert
       [\<lparr>appt_id = 1, appt_date = 3, appt_start = 600, appt_end = 660, appt_title = ''Review''\<rparr>]
       [\<lparr>occ_date = 4, occ_start = 600, occ_end = 660, occ_title = ''r''\<rparr>,
        \<lparr>occ_date = 3, occ_start = 630, occ_end = 690, occ_title = ''q''\<rparr>,
        \<lparr>occ_date = 2, occ_start = 600, occ_end = 640, occ_title = ''p''\<rparr>]))) \<noteq> [] \<and>
   \<lparr>occ_date = 3, occ_start = 630, occ_end = 690, occ_title = ''q''\<rparr>
     \<in> fst ` set (snd (bulkInsert
       [\<lparr>appt_id = 1, appt_date = 3, appt_start = 600, appt_end = 660, appt_title = ''Review''\<rparr>]
       [\<lparr>occ_date = 4, occ_start = 600, occ_end = 660, occ_title = ''r''\<rparr>,
        \<lparr>occ_date = 3, occ_start = 630, occ_end = 690, occ_title = ''q''\<rparr>,
        \<lparr>occ_date = 2, occ_start = 600, occ_end = 640, occ_title = ''p''\<rparr>]))"
proof -
  let ?a = "\<lparr>appt_id = 1, appt_date = 3, appt_start = 600, appt_end = 660, appt_title = ''Review''\<rparr>"
  let ?p = "\<lparr>occ_date = 2, occ_start = 600, occ_end = 640, occ_title = ''p''\<rparr>"
  let ?q = "\<lparr>occ_date = 3, occ_start = 630, occ_end = 690, occ_title = ''q''\<rparr>"
  let ?r = "\<lparr>occ_date = 4, occ_start = 600, occ_end = 660, occ_title = ''r''\<rparr>"
  let ?p' = "\<lparr>appt_id = 2, appt_date = 2, appt_start = 600, appt_end = 640, appt_title = ''p''\<rparr>"
  let ?R = "bulkInsert [?a] [?r, ?q, ?p]"
  note t = bulkInsert_accounts_for_all [of "[?a]" "[?r, ?q, ?p]"]
  note lengths = t [THEN conjunct1]
  note conflicts = t [THEN conjunct2, THEN conjunct1, rule_format]
  note store = t [THEN conjunct2, THEN conjunct2, THEN conjunct2, THEN conjunct1, rule_format]
  note split = t [THEN conjunct2, THEN conjunct2, THEN conjunct2, THEN conjunct2, rule_format]
  have order: "chronological [?r, ?q, ?p] = [?p] @ ?q # [?r]"
    "chronological [?r, ?q, ?p] = [?p, ?q] @ ?r # []"
    by code_simp+
  have before: "fst (bulkInsert [?a] [?p]) = [?p']" "fst (bulkInsert [?a] [?p, ?q]) = [?p']"
    by code_simp+
  have cq: "findConflicts ?q [?a, ?p'] = [ConflictPair ?q ?a]"
    by code_simp
  have cr: "findConflicts ?r [?a, ?p'] = []"
    by code_simp
  have cs: "findConflicts ?q [?a] \<noteq> []"
    by code_simp
  from lengths have l: "length (fst ?R) + length (snd ?R) = 3"
    by simp
  have 1: "(?q, [ConflictPair ?q ?a]) \<in> set (snd ?R)"
    using split [OF order(1), THEN conjunct2, THEN conjunct1] before(1) cq by simp
  have 2: "1 < length (fst ?R) \<and> occurrence_of (fst ?R ! 1) = ?r"
    using split [OF order(2), THEN conjunct2, THEN conjunct2] before(2) cr by simp
  from 1 have ne: "snd ?R \<noteq> []" by auto
  then have "0 < length (snd ?R)" by simp
  with l 2 have 3: "length (fst ?R) = 2 \<and> length (snd ?R) = 1"
    by arith
  from ne have "hd (snd ?R) \<in> set (snd ?R)" by (rule hd_in_set)
  then have 4: "snd (hd (snd ?R)) \<noteq> []" by (rule conflicts)
  have "?q \<in> set [?r, ?q, ?p]" by simp
  then have 5: "?q \<in> fst ` set (snd ?R)" using cs by (rule store)
  from 1 2 3 4 5 show ?thesis by simp
qed

section \<open>Count-mode expansion\<close>

declare count_loop.simps [simp del] until_loop.simps [simp del]

lemma weekday_in_window: "\<exists>i<7. weekday_of (c + int i) = w"
proof -
  obtain r :: int where r: "0 \<le> r" "r < 7" "\<And>d. d mod 7 = r \<Longrightarrow> weekday_of d = w"
  proof (cases w)
    case Monday
    then show ?thesis using that [of 0] by (simp add: weekday_of_def)
  next
    case Tuesday
    then show ?thesis using that [of 1] by (simp add: weekday_of_def)
  next
    case Wednesday
    then show ?thesis using that [of 2] by (simp add: weekday_of_def)
  next
    case Thursday
    then show ?thesis using that [of 3] by (simp add: weekday_of_def)
  next
    case Friday
    then show ?thesis using that [of 4] by (simp add: weekday_of_def)
  next
    case Saturday
    then show ?thesis using that [of 5] by (simp add: weekday_of_def)
  next
    case Sunday
    then show ?thesis using that [of 6] by (simp add: weekday_of_def)
  qed
  define i where "i = nat ((r - c) mod 7)"
  have i: "int i = (r - c) mod 7" "i < 7" by (simp_all add: i_def)
  have "(c + int i) mod 7 = (c + (r - c)) mod 7"
    unfolding i(1) by (simp add: mod_add_right_eq)
  also have "\<dots> = r" using r(1,2) by simp
  finally have "weekday_of (c + int i) = w" by (rule r(3))
  with i(2) show ?thesis by blast
qed

lemma cycle_dates_nonempty: "ws \<noteq> [] \<Longrightarrow> cycle_dates ws c \<noteq> []"
proof -
  assume "ws \<noteq> []"
  then obtain w where w: "w \<in> set ws" by (cases ws) auto
  obtain i where i: "i < 7" "weekday_of (c + int i) = w"
    using weekday_in_window by blast
  from i(1) have "c + int i \<in> set (map (\<lambda>i. c + int i) [0..<7])" by simp
  with i(2) w have "c + int i \<in> set (cycle_dates ws c)"
    unfolding cycle_dates_def by simp
  then show ?thesis by auto
qed

lemma cycle_dates_weekday: "d \<in> set (cycle_dates ws c) \<Longrightarrow> weekday_of d \<in> set ws"
  by (simp add: cycle_dates_def)

lemma count_loop_length: "ws \<noteq> [] \<Longrightarrow> length (count_loop ws every c n) = n"
proof (induction ws every c n rule: count_loop.induct)
  case (1 ws every c n)
  show ?case
  proof (cases "take n (cycle_dates ws c) = []")
    case True
    with 1(2) have "n = 0" using cycle_dates_nonempty [of ws c] by (cases n) auto
    with True show ?thesis by (subst count_loop.simps) simp
  next
    case False
    have "length (count_loop ws every (c + 7 * every) (n - length (take n (cycle_dates ws c)))) =
        n - length (take n (cycle_dates ws c))"
      using 1(1) [OF refl False 1(2)] .
    with False show ?thesis by (subst count_loop.simps) (simp add: Let_def)
  qed
qed

lemma count_loop_weekday: "d \<in> set (count_loop ws every c n) \<Longrightarrow> weekday_of d \<in> set ws"
proof (induction ws every c n rule: count_loop.induct)
  case (1 ws every c n)
  show ?case
  proof (cases "take n (cycle_dates ws c) = []")
    case True
    with 1(2) show ?thesis by (subst (asm) count_loop.simps) simp
  next
    case False
    from 1(2) have "d \<in> set (take n (cycle_dates ws c)) \<or>
        d \<in> set (count_loop ws every (c + 7 * every) (n - length (take n (cycle_dates ws c))))"
      using False by (subst (asm) count_loop.simps) (simp add: Let_def)
    then show ?thesis
    proof
      assume "d \<in> set (take n (cycle_dates ws c))"
      then have "d \<in> set (cycle_dates ws c)" by (rule in_set_takeD)
      then show ?thesis by (rule cycle_dates_weekday)
    next
      assume "d \<in> set (count_loop ws every (c + 7 * every) (n - length (take n (cycle_dates ws c))))"
      then show ?thesis using 1(1) [OF refl False] by simp
    qed
  qed
qed

text \<open>
  C3. For every valid RecurrenceSpec in count mode with count \<open>n\<close> (so \<open>n \<ge> 1\<close>, the
  weekday set is non-empty and the duration positive), whatever its interval multiplier
  and the date the expansion starts from, \<^verbatim>\<open>expand\<close> returns exactly \<open>n\<close> occurrences in
  total, each on a weekday of the set.
\<close>

theorem expand_count_yields_n:
  "valid_spec sp \<and> rs_count sp = Some n \<longrightarrow>
     (\<exists>occs. expand sp horizon = Inr occs \<and> int (length occs) = n \<and>
        (\<forall>c\<in>set occs. weekday_of (occ_date c) \<in> set (rs_weekdays sp)))"
proof
  assume a: "valid_spec sp \<and> rs_count sp = Some n"
  then have ws: "rs_weekdays sp \<noteq> []" and n: "1 \<le> n" by (auto simp: valid_spec_def)
  let ?ds = "count_loop (rs_weekdays sp) (rs_every sp) (first_date (rs_weekdays sp) horizon) (nat n)"
  have e: "expand sp horizon = Inr (map (occurrence_at sp) ?ds)"
    using a by (simp add: expand_def)
  have "length ?ds = nat n" using ws by (rule count_loop_length)
  with n have l: "int (length (map (occurrence_at sp) ?ds)) = n" by simp
  have "\<forall>c\<in>set (map (occurrence_at sp) ?ds). weekday_of (occ_date c) \<in> set (rs_weekdays sp)"
    by (auto simp: occurrence_at_def dest: count_loop_weekday)
  with e l show "\<exists>occs. expand sp horizon = Inr occs \<and> int (length occs) = n \<and>
        (\<forall>c\<in>set occs. weekday_of (occ_date c) \<in> set (rs_weekdays sp))"
    by blast
qed

theorem expand_count_yields_n_witness:
  "valid_spec \<lparr>rs_weekdays = [Thursday, Monday], rs_time = 1140, rs_duration = 60, rs_every = 2,
      rs_count = Some 5, rs_until = None, rs_range = None, rs_title = ''Dance''\<rparr> \<and>
   (\<exists>occs. expand \<lparr>rs_weekdays = [Thursday, Monday], rs_time = 1140, rs_duration = 60,
      rs_every = 2, rs_count = Some 5, rs_until = None, rs_range = None,
      rs_title = ''Dance''\<rparr> 1 = Inr occs \<and> length occs = 5)"
proof -
  let ?sp = "\<lparr>rs_weekdays = [Thursday, Monday], rs_time = 1140, rs_duration = 60, rs_every = 2,
      rs_count = Some 5, rs_until = None, rs_range = None, rs_title = ''Dance''\<rparr>"
  have v: "valid_spec ?sp" by (simp add: valid_spec_def modes_set_def)
  moreover have "rs_count ?sp = Some 5" by simp
  ultimately have "\<exists>occs. expand ?sp 1 = Inr occs \<and> int (length occs) = 5 \<and>
        (\<forall>c\<in>set occs. weekday_of (occ_date c) \<in> set (rs_weekdays ?sp))"
    using expand_count_yields_n [of ?sp 5 1] by blast
  then have "\<exists>occs. expand ?sp 1 = Inr occs \<and> length occs = 5" by auto
  with v show ?thesis by blast
qed

section \<open>Snoozed reminders\<close>

lemma snooze_Inr:
  assumes "snooze rs now i offset = Inr rs'"
  shows "rs' = map (\<lambda>r. if rem_id r = i
                        then r\<lparr>rem_basis := Absolute (now + offset), rem_delivered := False\<rparr>
                        else r) rs"
  using assms by (simp add: snooze_def split: if_splits)

lemma snooze_reset:
  assumes "snooze rs now i offset = Inr rs'" "x \<in> set rs'" "rem_id x = i"
  shows "trigger_time starts x = Some (now + offset) \<and> \<not> rem_delivered x"
proof -
  from assms(1,2) obtain r where r: "r \<in> set rs"
    "x = (if rem_id r = i then r\<lparr>rem_basis := Absolute (now + offset), rem_delivered := False\<rparr> else r)"
    unfolding snooze_Inr [OF assms(1)] by auto
  with assms(3) have "x = r\<lparr>rem_basis := Absolute (now + offset), rem_delivered := False\<rparr>"
    by (cases "rem_id r = i") auto
  then show ?thesis by (simp add: trigger_time_def)
qed

lemma snooze_not_due:
  assumes "snooze rs now i offset = Inr rs'" "0 < offset"
  shows "i \<notin> rem_id ` set (dueReminders starts rs' now)"
proof
  assume "i \<in> rem_id ` set (dueReminders starts rs' now)"
  then obtain x where x: "x \<in> set rs'" "rem_id x = i"
    "case trigger_time starts x of None \<Rightarrow> False | Some t \<Rightarrow> t \<le> now"
    by (auto simp: dueReminders_def)
  from snooze_reset [OF assms(1) x(1,2)] have "trigger_time starts x = Some (now + offset)"
    by simp
  with x(3) assms(2) show False by simp
qed

lemma snooze_found:
  assumes "i \<in> rem_id ` set rs"
  shows "\<exists>rs'. snooze rs now i offset = Inr rs'"
  using assms by (auto simp: snooze_def list_ex_iff)

text \<open>
  C8. Snooze takes a reminder id and a minute offset, resets the trigger time of that
  reminder to \<open>now + offset\<close> and clears its delivered flag, so that for a positive offset
  the reminder is not in \<open>dueReminders now\<close> right afterwards. Every snooze control of
  the frontend sends the offset 10 (also the default of \<^verbatim>\<open>snoozeReminder\<close>), and with
  that request a reminder the engine knows is reset to \<open>now + 10\<close> and absent from the
  next due poll.
\<close>

theorem snooze_resets_trigger:
  "on_click ctl r = \<lparr>sn_action = ''reminder_snooze'', sn_id = r_id r, sn_minutes = 10\<rparr> \<and>
   snoozeReminder r None = \<lparr>sn_action = ''reminder_snooze'', sn_id = r_id r, sn_minutes = 10\<rparr> \<and>
   (snooze rs now i offset = Inr rs' \<longrightarrow>
      (\<forall>x\<in>set rs'. rem_id x = i \<longrightarrow>
         trigger_time starts x = Some (now + offset) \<and> \<not> rem_delivered x) \<and>
      (0 < offset \<longrightarrow> i \<notin> rem_id ` set (dueReminders starts rs' now))) \<and>
   (r_id r \<in> rem_id ` set rs \<longrightarrow>
      (\<exists>rs'. dispatch_snooze rs now (on_click ctl r) = Inr rs' \<and>
         (\<forall>x\<in>set rs'. rem_id x = r_id r \<longrightarrow>
            trigger_time starts x = Some (now + 10) \<and> \<not> rem_delivered x) \<and>
         r_id r \<notin> rem_id ` set (dueReminders starts rs' now)))"
proof (intro conjI impI ballI)
  show c: "on_click ctl r = \<lparr>sn_action = ''reminder_snooze'', sn_id = r_id r, sn_minutes = 10\<rparr>"
    by (cases ctl) (simp_all add: snoozeReminder_def)
  show "snoozeReminder r None = \<lparr>sn_action = ''reminder_snooze'', sn_id = r_id r, sn_minutes = 10\<rparr>"
    by (simp add: snoozeReminder_def)
  {
    fix x
    assume "snooze rs now i offset = Inr rs'" "x \<in> set rs'" "rem_id x = i"
    from snooze_reset [OF this]
    show "trigger_time starts x = Some (now + offset)" and "\<not> rem_delivered x" by simp_all
  }
  {
    assume "snooze rs now i offset = Inr rs'" "0 < offset"
    then show "i \<notin> rem_id ` set (dueReminders starts rs' now)" by (rule snooze_not_due)
  }
  {
    assume "r_id r \<in> rem_id ` set rs"
    then obtain rs'' where s: "snooze rs now (r_id r) 10 = Inr rs''"
      using snooze_found by blast
    then have d: "dispatch_snooze rs now (on_click ctl r) = Inr rs''"
      by (simp add: dispatch_snooze_def c)
    have "\<forall>x\<in>set rs''. rem_id x = r_id r \<longrightarrow>
        trigger_time starts x = Some (now + 10) \<and> \<not> rem_delivered x"
      using snooze_reset [OF s] by blast
    moreover have "r_id r \<notin> rem_id ` set (dueReminders starts rs'' now)"
      using snooze_not_due [OF s] by simp
    ultimately show "\<exists>rs'. dispatch_snooze rs now (on_click ctl r) = Inr rs' \<and>
         (\<forall>x\<in>set rs'. rem_id x = r_id r \<longrightarrow>
            trigger_time starts x = Some (now + 10) \<and> \<not> rem_delivered x) \<and>
         r_id r \<notin> rem_id ` set (dueReminders starts rs' now)"
      using d by blast
  }
qed

theorem snooze_resets_trigger_witness:
  "(\<exists>rs'. dispatch_snooze
       [\<lparr>rem_id = 7, rem_appointment = None, rem_basis = Absolute 100, rem_active = True,
         rem_delivered = True, rem_title = ''Call Alex''\<rparr>] 200
       (on_click ToastSnooze \<lparr>r_id = 7, r_title = ''Call Alex''\<rparr>) = Inr rs' \<and>
     7 \<notin> rem_id ` set (dueReminders Map.empty rs' 200)) \<and>
   snooze
       [\<lparr>rem_id = 7, rem_appointment = None, rem_basis = Absolute 100, rem_active = True,
         rem_delivered = True, rem_title = ''Call Alex''\<rparr>] 200 7 10 =
     Inr [\<lparr>rem_id = 7, rem_appointment = None, rem_basis = Absolute 210, rem_active = True,
         rem_delivered = False, rem_title = ''Call Alex''\<rparr>] \<and>
   trigger_time Map.empty
       \<lparr>rem_id = 7, rem_appointment = None, rem_basis = Absolute 210, rem_active = True,
         rem_delivered = False, rem_title = ''Call Alex''\<rparr> = Some (200 + 10) \<and>
   7 \<notin> rem_id ` set (dueReminders Map.empty
       [\<lparr>rem_id = 7, rem_appointment = None, rem_basis = Absolute 210, rem_active = True,
         rem_delivered = False, rem_title = ''Call Alex''\<rparr>] 200) \<and>
   dueReminders Map.empty
       [\<lparr>rem_id = 7, rem_appointment = None, rem_basis = Absolute 100, rem_active = True,
         rem_delivered = False, rem_title = ''Call Alex''\<rparr>] 200 \<noteq> []"
proof -
  let ?rs = "[\<lparr>rem_id = 7, rem_appointment = None, rem_basis = Absolute 100, rem_active = True,
         rem_delivered = True, rem_title = ''Call Alex''\<rparr>]"
  let ?x = "\<lparr>rem_id = 7, rem_appointment = None, rem_basis = Absolute 210, rem_active = True,
         rem_delivered = False, rem_title = ''Call Alex''\<rparr>"
  let ?r = "\<lparr>r_id = 7, r_title = ''Call Alex''\<rparr>"
  note t = snooze_resets_trigger [of ToastSnooze ?r ?rs 200 7 10 "[?x]" Map.empty]
  have m: "r_id ?r \<in> rem_id ` set ?rs" by simp
  have s: "snooze ?rs 200 7 10 = Inr [?x]" by (simp add: snooze_def)
  from t m have "\<exists>rs'. dispatch_snooze ?rs 200 (on_click ToastSnooze ?r) = Inr rs' \<and>
         (\<forall>x\<in>set rs'. rem_id x = r_id ?r \<longrightarrow>
            trigger_time Map.empty x = Some (200 + 10) \<and> \<not> rem_delivered x) \<and>
         r_id ?r \<notin> rem_id ` set (dueReminders Map.empty rs' 200)"
    by blast
  then have 1: "\<exists>rs'. dispatch_snooze ?rs 200 (on_click ToastSnooze ?r) = Inr rs' \<and>
     7 \<notin> rem_id ` set (dueReminders Map.empty rs' 200)"
    by auto
  from t s have g: "(\<forall>x\<in>set [?x]. rem_id x = 7 \<longrightarrow>
         trigger_time Map.empty x = Some (200 + 10) \<and> \<not> rem_delivered x) \<and>
      ((0::int) < 10 \<longrightarrow> 7 \<notin> rem_id ` set (dueReminders Map.empty [?x] 200))"
    by blast
  then have 2: "trigger_time Map.empty ?x = Some (200 + 10)" by simp
  from g have 3: "7 \<notin> rem_id ` set (dueReminders Map.empty [?x] 200)" by simp
  have 4: "dueReminders Map.empty
       [\<lparr>rem_id = 7, rem_appointment = None, rem_basis = Absolute 100, rem_active = True,
         rem_delivered = False, rem_title = ''Call Alex''\<rparr>] 200 \<noteq> []"
    by (simp add: dueReminders_def trigger_time_def)
  from 1 s 2 3 4 show ?thesis by blast
qed

end
